theory Spec2Isabelle
  imports Complex_Main "HOL-Library.Product_Lexorder"
begin

section \<open>Data model (types.ts)\<close>

text \<open>
  Strings are lists of characters, one \<^typ>\<open>char\<close> for each UTF-16 code unit of the
  JavaScript string; \<open>word[i]\<close> is the one-character string \<open>[w ! i]\<close> and the empty
  string \<open>''\<close> is \<open>[]\<close>. Row and column numbers are natural numbers: the generator only
  ever produces non-negative integers.
\<close>

datatype direction = Across | Down

record WordEntry =
  entry_word :: string
  entry_clue :: string
  category :: string

record PlacedWord =
  word :: string
  clue :: string
  row :: nat
  col :: nat
  direction :: direction
  number :: nat

record Cell =
  letter :: string
  userInput :: string
  isBlack :: bool
  cell_number :: "nat option"
  acrossClue :: "nat option"
  downClue :: "nat option"
  isSolutionCell :: bool
  solutionIndex :: "nat option"
  revealed :: bool
  checked :: bool
  isCorrect :: "bool option"

record SolutionCell =
  sc_row :: nat
  sc_col :: nat
  sc_index :: nat

record Puzzle =
  grid :: "Cell list list"
  placedWords :: "PlacedWord list"
  solutionWord :: string
  solutionCells :: "SolutionCell list"

section \<open>Array accesses\<close>

text \<open>
  An index outside an array is an outcome of its own. \<open>TypeError\<close> is what JavaScript
  throws when a row that does not exist is indexed, or a field of a cell that does not
  exist is read or written. \<open>IndexOutOfRange\<close> stands for the accesses JavaScript lets
  through silently: a read past the end of a row (it yields \<open>undefined\<close>) and a write
  past the end (it grows the row). The model stops at both, so that a run that ends in
  \<open>Inr\<close> has evaluated in-range indices only.
\<close>

datatype error = TypeError | IndexOutOfRange

definition GRID_SIZE :: nat where
  "GRID_SIZE = 15"

definition getAt :: "'a list list \<Rightarrow> nat \<Rightarrow> nat \<Rightarrow> error + 'a" where
  "getAt g r c =
     (if r < length g
      then (if c < length (g ! r) then Inr (g ! r ! c) else Inl IndexOutOfRange)
      else Inl TypeError)"

definition setAt :: "'a list list \<Rightarrow> nat \<Rightarrow> nat \<Rightarrow> 'a \<Rightarrow> error + 'a list list" where
  "setAt g r c v =
     (if r < length g
      then (if c < length (g ! r) then Inr (g[r := (g ! r)[c := v]]) else Inl IndexOutOfRange)
      else Inl TypeError)"

definition createEmptyGrid :: "string list list" where
  "createEmptyGrid = replicate GRID_SIZE (replicate GRID_SIZE [])"

section \<open>Occupancy map\<close>

text \<open>
  The source keys its maps by the string \<open>`${r}-${c}`\<close>, which determines the pair
  \<open>(r, c)\<close> of natural numbers and is determined by it; the model keys them by the pair.
\<close>

type_synonym OccupiedMap = "nat \<times> nat \<Rightarrow> direction set option"

definition cellOf :: "direction \<Rightarrow> nat \<Rightarrow> nat \<Rightarrow> nat \<Rightarrow> nat \<times> nat" where
  "cellOf d r c i = (if d = Across then (r, c + i) else (r + i, c))"

definition wordCells :: "PlacedWord \<Rightarrow> (nat \<times> nat) list" where
  "wordCells pw = map (cellOf (direction pw) (row pw) (col pw)) [0..<length (word pw)]"

definition addDirection :: "direction \<Rightarrow> nat \<times> nat \<Rightarrow> OccupiedMap \<Rightarrow> OccupiedMap" where
  "addDirection d k m =
     (case m k of None \<Rightarrow> m(k \<mapsto> {d}) | Some s \<Rightarrow> m(k \<mapsto> insert d s))"

definition getOccupied :: "PlacedWord list \<Rightarrow> OccupiedMap" where
  "getOccupied placed =
     fold (\<lambda>pw m. fold (addDirection (direction pw)) (wordCells pw) m) placed Map.empty"

section \<open>Legality check\<close>

definition otherDir :: "direction \<Rightarrow> direction" where
  "otherDir d = (if d = Across then Down else Across)"

text \<open>
  One iteration of the loop over the letters of the word, at index \<open>i\<close> with letter
  \<open>ch\<close>: \<open>Inr None\<close> is \<open>return false\<close>, \<open>Inr (Some k)\<close> is falling through to the
  next iteration with \<open>k\<close> added to \<open>intersectionCount\<close>.
\<close>

definition checkLetter ::
  "string list list \<Rightarrow> nat \<Rightarrow> nat \<Rightarrow> direction \<Rightarrow> OccupiedMap \<Rightarrow> nat \<Rightarrow> char
     \<Rightarrow> error + nat option" where
  "checkLetter g r0 c0 d occupied i ch =
     (let r = (if d = Across then r0 else r0 + i);
          c = (if d = Across then c0 + i else c0)
      in case getAt g r c of
           Inl e \<Rightarrow> Inl e
         | Inr existing \<Rightarrow>
             if existing \<noteq> [] then
               (if existing \<noteq> [ch] then Inr None
                else case occupied (r, c) of
                       None \<Rightarrow> Inr None
                     | Some dirs \<Rightarrow>
                         if d \<in> dirs then Inr None
                         else if otherDir d \<notin> dirs then Inr None
                         else Inr (Some 1))
             else if d = Across then
               (case (if r > 0 then getAt g (r - 1) c else Inr []) of
                  Inl e \<Rightarrow> Inl e
                | Inr cellAbove \<Rightarrow>
                    if cellAbove \<noteq> [] then Inr None
                    else case (if r < GRID_SIZE - 1 then getAt g (r + 1) c else Inr []) of
                           Inl e \<Rightarrow> Inl e
                         | Inr cellBelow \<Rightarrow> if cellBelow \<noteq> [] then Inr None else Inr (Some 0))
             else
               (case (if c > 0 then getAt g r (c - 1) else Inr []) of
                  Inl e \<Rightarrow> Inl e
                | Inr cellLeft \<Rightarrow>
                    if cellLeft \<noteq> [] then Inr None
                    else case (if c < GRID_SIZE - 1 then getAt g r (c + 1) else Inr []) of
                           Inl e \<Rightarrow> Inl e
                         | Inr cellRight \<Rightarrow> if cellRight \<noteq> [] then Inr None else Inr (Some 0)))"

text \<open>The loop \<open>for (let i = 0; i < len; i++)\<close>, from index \<open>i\<close> on the rest of the word.\<close>

fun letterLoop ::
  "string list list \<Rightarrow> nat \<Rightarrow> nat \<Rightarrow> direction \<Rightarrow> OccupiedMap \<Rightarrow> nat \<Rightarrow> string \<Rightarrow> nat
     \<Rightarrow> error + nat option" where
  "letterLoop g r0 c0 d occupied i [] cnt = Inr (Some cnt)"
| "letterLoop g r0 c0 d occupied i (ch # rest) cnt =
     (case checkLetter g r0 c0 d occupied i ch of
        Inl e \<Rightarrow> Inl e
      | Inr None \<Rightarrow> Inr None
      | Inr (Some k) \<Rightarrow> letterLoop g r0 c0 d occupied (i + 1) rest (cnt + k))"

definition canPlaceWord ::
  "string list list \<Rightarrow> string \<Rightarrow> nat \<Rightarrow> nat \<Rightarrow> direction \<Rightarrow> PlacedWord list \<Rightarrow> OccupiedMap
     \<Rightarrow> error + bool" where
  "canPlaceWord g w r0 c0 d placed occupied =
     (let len = length w; isAcross = (d = Across) in
      if isAcross \<and> c0 + len > GRID_SIZE then Inr False
      else if \<not> isAcross \<and> r0 + len > GRID_SIZE then Inr False
      else
        case (if isAcross then (if c0 > 0 then getAt g r0 (c0 - 1) else Inr [])
              else (if r0 > 0 then getAt g (r0 - 1) c0 else Inr [])) of
          Inl e \<Rightarrow> Inl e
        | Inr cellBefore \<Rightarrow>
            if cellBefore \<noteq> [] then Inr False
            else
              case (if isAcross
                    then (if c0 + len < GRID_SIZE then getAt g r0 (c0 + len) else Inr [])
                    else (if r0 + len < GRID_SIZE then getAt g (r0 + len) c0 else Inr [])) of
                Inl e \<Rightarrow> Inl e
              | Inr cellAfter \<Rightarrow>
                  if cellAfter \<noteq> [] then Inr False
                  else
                    case letterLoop g r0 c0 d occupied 0 w 0 of
                      Inl e \<Rightarrow> Inl e
                    | Inr None \<Rightarrow> Inr False
                    | Inr (Some intersectionCount) \<Rightarrow>
                        if length placed > 0 \<and> intersectionCount = 0 then Inr False
                        else Inr True)"

section \<open>Committing a word to the grid\<close>

fun placeWordFrom ::
  "string list list \<Rightarrow> string \<Rightarrow> nat \<Rightarrow> nat \<Rightarrow> direction \<Rightarrow> nat \<Rightarrow> error + string list list" where
  "placeWordFrom g [] r0 c0 d i = Inr g"
| "placeWordFrom g (ch # rest) r0 c0 d i =
     (case (if d = Across then setAt g r0 (c0 + i) [ch] else setAt g (r0 + i) c0 [ch]) of
        Inl e \<Rightarrow> Inl e
      | Inr g' \<Rightarrow> placeWordFrom g' rest r0 c0 d (i + 1))"

definition placeWord ::
  "string list list \<Rightarrow> string \<Rightarrow> nat \<Rightarrow> nat \<Rightarrow> direction \<Rightarrow> error + string list list" where
  "placeWord g w r0 c0 d = placeWordFrom g w r0 c0 d 0"

section \<open>Placement search\<close>

record Placement =
  p_row :: nat
  p_col :: nat
  p_direction :: direction
  score :: rat

text \<open>
  The three nested loops of \<open>findBestPlacement\<close> visit these positions in this order.
  The bounds are integers: \<open>GRID_SIZE - word.length\<close> is negative for a word longer
  than the grid, and the loop over it then has no iteration.
\<close>

definition scanPositions :: "string \<Rightarrow> (direction \<times> nat \<times> nat) list" where
  "scanPositions w =
     concat (map (\<lambda>d.
       let isAcross = (d = Across);
           maxR = (if isAcross then int GRID_SIZE else int GRID_SIZE - int (length w));
           maxC = (if isAcross then int GRID_SIZE - int (length w) else int GRID_SIZE)
       in concat (map (\<lambda>r. map (\<lambda>c. (d, nat r, nat c)) [0 .. maxC - (if isAcross then 0 else 1)])
                   [0 .. maxR - (if isAcross then 1 else 0)]))
       [Across, Down])"

text \<open>The loop that adds 10 to the score for each letter already on the grid.\<close>

fun scoreLoop ::
  "string list list \<Rightarrow> string \<Rightarrow> nat \<Rightarrow> nat \<Rightarrow> direction \<Rightarrow> nat \<Rightarrow> rat \<Rightarrow> error + rat" where
  "scoreLoop g [] r0 c0 d i sc = Inr sc"
| "scoreLoop g (ch # rest) r0 c0 d i sc =
     (let cr = (if d = Across then r0 else r0 + i);
          cc = (if d = Across then c0 + i else c0)
      in case getAt g cr cc of
           Inl e \<Rightarrow> Inl e
         | Inr existing \<Rightarrow>
             scoreLoop g rest r0 c0 d (i + 1)
               (if existing = [ch] \<and> existing \<noteq> [] then sc + 10 else sc))"

text \<open>
  The score is a JavaScript number. Every value it takes here is a multiple of
  \<open>1/4\<close> below \<open>2^53\<close> in absolute value, which floating point represents and
  adds exactly, so rational arithmetic computes the same score.
\<close>

definition placementScore ::
  "string list list \<Rightarrow> string \<Rightarrow> nat \<Rightarrow> nat \<Rightarrow> direction \<Rightarrow> error + rat" where
  "placementScore g w r0 c0 d =
     (case scoreLoop g w r0 c0 d 0 0 of
        Inl e \<Rightarrow> Inl e
      | Inr sc \<Rightarrow>
          let isAcross = (d = Across);
              centerR = (if isAcross then of_nat r0 else of_nat r0 + of_nat (length w) / 2);
              centerC = (if isAcross then of_nat c0 + of_nat (length w) / 2 else of_nat c0)
          in Inr (sc - (\<bar>centerR - 7\<bar> + \<bar>centerC - 7\<bar>) * (1 / 2)))"

definition considerPosition ::
  "string list list \<Rightarrow> string \<Rightarrow> PlacedWord list \<Rightarrow> OccupiedMap \<Rightarrow> Placement option
     \<Rightarrow> direction \<times> nat \<times> nat \<Rightarrow> error + Placement option" where
  "considerPosition g w placed occupied best pos =
     (case pos of (d, r, c) \<Rightarrow>
        case canPlaceWord g w r c d placed occupied of
          Inl e \<Rightarrow> Inl e
        | Inr False \<Rightarrow> Inr best
        | Inr True \<Rightarrow>
            (case placementScore g w r c d of
               Inl e \<Rightarrow> Inl e
             | Inr sc \<Rightarrow>
                 (case best of
                    None \<Rightarrow> Inr (Some \<lparr>p_row = r, p_col = c, p_direction = d, score = sc\<rparr>)
                  | Some b \<Rightarrow>
                      if sc > score b
                      then Inr (Some \<lparr>p_row = r, p_col = c, p_direction = d, score = sc\<rparr>)
                      else Inr best)))"

fun scanLoop ::
  "string list list \<Rightarrow> string \<Rightarrow> PlacedWord list \<Rightarrow> OccupiedMap \<Rightarrow> Placement option
     \<Rightarrow> (direction \<times> nat \<times> nat) list \<Rightarrow> error + Placement option" where
  "scanLoop g w placed occupied best [] = Inr best"
| "scanLoop g w placed occupied best (pos # rest) =
     (case considerPosition g w placed occupied best pos of
        Inl e \<Rightarrow> Inl e
      | Inr best' \<Rightarrow> scanLoop g w placed occupied best' rest)"

definition findBestPlacement ::
  "string list list \<Rightarrow> string \<Rightarrow> PlacedWord list \<Rightarrow> OccupiedMap \<Rightarrow> error + Placement option" where
  "findBestPlacement g w placed occupied = scanLoop g w placed occupied None (scanPositions w)"

section \<open>The pseudo-random source and the shuffle\<close>

text \<open>
  \<open>rng n\<close> is the value of the \<open>n\<close>-th call of \<open>Math.random()\<close> in the run, and the
  number of calls made so far is passed along. \<open>Math.floor(Math.random() * k)\<close> is
  \<open>randomInt\<close>.
\<close>

definition randomInt :: "(nat \<Rightarrow> rat) \<Rightarrow> nat \<Rightarrow> nat \<Rightarrow> nat" where
  "randomInt rng pos k = nat \<lfloor>rng pos * of_nat k\<rfloor>"

definition rngOk :: "(nat \<Rightarrow> rat) \<Rightarrow> bool" where
  "rngOk rng = (\<forall>n. 0 \<le> rng n \<and> rng n < 1)"

text \<open>The loop \<open>for (let i = a.length - 1; i > 0; i--)\<close> of \<open>shuffle\<close>, at index \<open>i\<close>.\<close>

fun shuffleLoop :: "(nat \<Rightarrow> rat) \<Rightarrow> nat \<Rightarrow> nat \<Rightarrow> 'a list \<Rightarrow> error + 'a list \<times> nat" where
  "shuffleLoop rng pos 0 a = Inr (a, pos)"
| "shuffleLoop rng pos (Suc k) a =
     (let i = Suc k; j = randomInt rng pos (i + 1) in
      if i < length a \<and> j < length a
      then shuffleLoop rng (pos + 1) k (a[i := a ! j, j := a ! i])
      else Inl IndexOutOfRange)"

definition shuffle :: "(nat \<Rightarrow> rat) \<Rightarrow> nat \<Rightarrow> 'a list \<Rightarrow> error + 'a list \<times> nat" where
  "shuffle rng pos arr = shuffleLoop rng pos (length arr - 1) arr"

section \<open>One placement attempt\<close>

definition newPlaced :: "WordEntry \<Rightarrow> nat \<Rightarrow> nat \<Rightarrow> direction \<Rightarrow> PlacedWord" where
  "newPlaced e r c d =
     \<lparr>word = entry_word e, clue = entry_clue e, row = r, col = c, direction = d, number = 0\<rparr>"

text \<open>
  The body of the loop over the words after the seed: the best placement is looked for,
  and the word is written to the grid and pushed on the list when its score is positive.
\<close>

definition placeEntry ::
  "WordEntry \<Rightarrow> string list list \<Rightarrow> PlacedWord list
     \<Rightarrow> error + string list list \<times> PlacedWord list" where
  "placeEntry entry g placed =
     (case findBestPlacement g (entry_word entry) placed (getOccupied placed) of
        Inl e \<Rightarrow> Inl e
      | Inr None \<Rightarrow> Inr (g, placed)
      | Inr (Some placement) \<Rightarrow>
          if score placement > 0 then
            (case placeWord g (entry_word entry) (p_row placement) (p_col placement)
                    (p_direction placement) of
               Inl e \<Rightarrow> Inl e
             | Inr g' \<Rightarrow>
                 Inr (g', placed @ [newPlaced entry (p_row placement) (p_col placement)
                                      (p_direction placement)]))
          else Inr (g, placed))"

text \<open>
  The loop \<open>for (let i = 1; i < shuffled.length && placed.length < 28; i++)\<close>, on the
  entries that are left.
\<close>

fun placeRest ::
  "WordEntry list \<Rightarrow> string list list \<Rightarrow> PlacedWord list
     \<Rightarrow> error + string list list \<times> PlacedWord list" where
  "placeRest [] g placed = Inr (g, placed)"
| "placeRest (entry # rest) g placed =
     (if length placed < 28 then
        (case placeEntry entry g placed of
           Inl e \<Rightarrow> Inl e
         | Inr (g', placed') \<Rightarrow> placeRest rest g' placed')
      else Inr (g, placed))"

text \<open>
  The seed word. \<open>Math.floor((GRID_SIZE - first.word.length) / 2)\<close> is the division of
  natural numbers: the filter has left words of at most \<open>GRID_SIZE\<close> letters only.
\<close>

definition placeFirst ::
  "WordEntry list \<Rightarrow> error + string list list \<times> PlacedWord list" where
  "placeFirst shuffled =
     (case shuffled of
        [] \<Rightarrow> Inr (createEmptyGrid, [])
      | first # _ \<Rightarrow>
          let startCol = (GRID_SIZE - length (entry_word first)) div 2;
              startRow = GRID_SIZE div 2
          in case placeWord createEmptyGrid (entry_word first) startRow startCol Across of
               Inl e \<Rightarrow> Inl e
             | Inr g \<Rightarrow> Inr (g, [newPlaced first startRow startCol Across]))"

definition runAttempt ::
  "(nat \<Rightarrow> rat) \<Rightarrow> nat \<Rightarrow> WordEntry list
     \<Rightarrow> error + (string list list \<times> PlacedWord list) \<times> nat" where
  "runAttempt rng pos wordPool =
     (case shuffle rng pos wordPool of
        Inl e \<Rightarrow> Inl e
      | Inr (sh, pos') \<Rightarrow>
          let shuffled = filter (\<lambda>w. length (entry_word w) \<le> GRID_SIZE) sh in
          case placeFirst shuffled of
            Inl e \<Rightarrow> Inl e
          | Inr (g, placed) \<Rightarrow>
              (case placeRest (drop 1 shuffled) g placed of
                 Inl e \<Rightarrow> Inl e
               | Inr res \<Rightarrow> Inr (res, pos')))"

text \<open>The loop over the attempts, with the number of attempts still to run.\<close>

fun attempts ::
  "nat \<Rightarrow> (nat \<Rightarrow> rat) \<Rightarrow> nat \<Rightarrow> WordEntry list \<Rightarrow> PlacedWord list \<Rightarrow> string list list
     \<Rightarrow> error + (PlacedWord list \<times> string list list) \<times> nat" where
  "attempts 0 rng pos wordPool bestPlaced bestGrid = Inr ((bestPlaced, bestGrid), pos)"
| "attempts (Suc k) rng pos wordPool bestPlaced bestGrid =
     (case runAttempt rng pos wordPool of
        Inl e \<Rightarrow> Inl e
      | Inr ((g, placed), pos') \<Rightarrow>
          if length placed > length bestPlaced
          then attempts k rng pos' wordPool placed g
          else attempts k rng pos' wordPool bestPlaced bestGrid)"

section \<open>Clue numbering\<close>

text \<open>
  \<open>Array.prototype.sort\<close> is stable, and the comparator orders by row and then by
  column, which is the lexicographic order of the pair; \<open>sort_key\<close> is the stable sort
  by that key.
\<close>

definition sortByPosition :: "PlacedWord list \<Rightarrow> PlacedWord list" where
  "sortByPosition ws = sort_key (\<lambda>pw. (row pw, col pw)) ws"

text \<open>The loop that gives each start cell the next number, with \<open>numberMap\<close> and \<open>num\<close>.\<close>

fun numberLoop ::
  "PlacedWord list \<Rightarrow> (nat \<times> nat \<Rightarrow> nat option) \<Rightarrow> nat \<Rightarrow> PlacedWord list" where
  "numberLoop [] numberMap num = []"
| "numberLoop (pw # rest) numberMap num =
     (case numberMap (row pw, col pw) of
        None \<Rightarrow> pw\<lparr>number := num\<rparr> # numberLoop rest (numberMap((row pw, col pw) \<mapsto> num)) (num + 1)
      | Some k \<Rightarrow> pw\<lparr>number := k\<rparr> # numberLoop rest numberMap num)"

definition numberClues :: "PlacedWord list \<Rightarrow> PlacedWord list" where
  "numberClues bestPlaced = numberLoop (sortByPosition bestPlaced) Map.empty 1"

section \<open>The grid of cells\<close>

text \<open>Running a fallible step over a list, stopping at the first error.\<close>

fun mapE :: "('a \<Rightarrow> error + 'b) \<Rightarrow> 'a list \<Rightarrow> error + 'b list" where
  "mapE f [] = Inr []"
| "mapE f (x # xs) =
     (case f x of
        Inl e \<Rightarrow> Inl e
      | Inr y \<Rightarrow> (case mapE f xs of Inl e \<Rightarrow> Inl e | Inr ys \<Rightarrow> Inr (y # ys)))"

fun filterE :: "('a \<Rightarrow> error + bool) \<Rightarrow> 'a list \<Rightarrow> error + 'a list" where
  "filterE p [] = Inr []"
| "filterE p (x # xs) =
     (case p x of
        Inl e \<Rightarrow> Inl e
      | Inr b \<Rightarrow>
          (case filterE p xs of Inl e \<Rightarrow> Inl e | Inr ys \<Rightarrow> Inr (if b then x # ys else ys)))"

fun foldE :: "('a \<Rightarrow> 's \<Rightarrow> error + 's) \<Rightarrow> 'a list \<Rightarrow> 's \<Rightarrow> error + 's" where
  "foldE f [] s = Inr s"
| "foldE f (x # xs) s = (case f x s of Inl e \<Rightarrow> Inl e | Inr s' \<Rightarrow> foldE f xs s')"

definition mkCell :: "string \<Rightarrow> Cell" where
  "mkCell l =
     \<lparr>letter = l, userInput = [], isBlack = (l = []), cell_number = None, acrossClue = None,
      downClue = None, isSolutionCell = False, solutionIndex = None, revealed = False,
      checked = False, isCorrect = None\<rparr>"

definition buildCellGrid :: "string list list \<Rightarrow> error + Cell list list" where
  "buildCellGrid bestGrid =
     mapE (\<lambda>r. mapE (\<lambda>c. case getAt bestGrid r c of Inl e \<Rightarrow> Inl e | Inr l \<Rightarrow> Inr (mkCell l))
                  [0..<GRID_SIZE])
       [0..<GRID_SIZE]"

text \<open>
  Reading the cell object at \<open>cellGrid[r][c]\<close> and using one of its fields: a missing
  row or a missing cell both end in a \<open>TypeError\<close>. \<open>modifyCell\<close> assigns to fields of
  that object.
\<close>

definition cellAt :: "Cell list list \<Rightarrow> nat \<Rightarrow> nat \<Rightarrow> error + Cell" where
  "cellAt cg r c = (if r < length cg \<and> c < length (cg ! r) then Inr (cg ! r ! c) else Inl TypeError)"

definition modifyCell ::
  "Cell list list \<Rightarrow> nat \<Rightarrow> nat \<Rightarrow> (Cell \<Rightarrow> Cell) \<Rightarrow> error + Cell list list" where
  "modifyCell cg r c f =
     (if r < length cg \<and> c < length (cg ! r)
      then Inr (cg[r := (cg ! r)[c := f (cg ! r ! c)]])
      else Inl TypeError)"

text \<open>The body of the loop that sets the numbers and the clue references, for one word.\<close>

definition setClueRefs :: "PlacedWord \<Rightarrow> Cell list list \<Rightarrow> error + Cell list list" where
  "setClueRefs pw cg =
     (case modifyCell cg (row pw) (col pw)
             (\<lambda>cell. case cell_number cell of
                        None \<Rightarrow> cell\<lparr>cell_number := Some (number pw)\<rparr>
                      | Some k \<Rightarrow> if number pw < k then cell\<lparr>cell_number := Some (number pw)\<rparr>
                                  else cell) of
        Inl e \<Rightarrow> Inl e
      | Inr cg1 \<Rightarrow>
          if direction pw = Across
          then foldE (\<lambda>i g. modifyCell g (row pw) (col pw + i)
                               (\<lambda>cell. cell\<lparr>acrossClue := Some (number pw)\<rparr>))
                 [0..<length (word pw)] cg1
          else foldE (\<lambda>i g. modifyCell g (row pw + i) (col pw)
                               (\<lambda>cell. cell\<lparr>downClue := Some (number pw)\<rparr>))
                 [0..<length (word pw)] cg1)"

section \<open>Solution-word overlay\<close>

text \<open>
  \<open>cellToWords.get(key) || []\<close>: the list of the indices of the words through a
  cell, empty for a cell no word goes through.
\<close>

definition cellToWords :: "PlacedWord list \<Rightarrow> nat \<times> nat \<Rightarrow> nat list" where
  "cellToWords bestPlaced =
     fold (\<lambda>wi m. fold (\<lambda>k m. m(k := m k @ [wi])) (wordCells (bestPlaced ! wi)) m)
       [0..<length bestPlaced] (\<lambda>_. [])"

definition letterCellsOf :: "Cell list list \<Rightarrow> error + (nat \<times> nat) list" where
  "letterCellsOf cg =
     (case mapE (\<lambda>r. filterE (\<lambda>rc. case cellAt cg (fst rc) (snd rc) of
                                     Inl e \<Rightarrow> Inl e
                                   | Inr cell \<Rightarrow> Inr (\<not> isBlack cell))
                        (map (\<lambda>c. (r, c)) [0..<GRID_SIZE]))
             [0..<GRID_SIZE] of
        Inl e \<Rightarrow> Inl e
      | Inr rows \<Rightarrow> Inr (concat rows))"

record SolState =
  cells :: "Cell list list"
  assigned :: "SolutionCell list"
  usedCells :: "(nat \<times> nat) set"
  usedWords :: "nat set"
  draws :: nat

text \<open>The filter of the strict rule, and the filter of the first fallback.\<close>

definition isCandidate ::
  "SolState \<Rightarrow> (nat \<times> nat \<Rightarrow> nat list) \<Rightarrow> char \<Rightarrow> nat \<times> nat \<Rightarrow> error + bool" where
  "isCandidate st ctw ch lc =
     (case cellAt (cells st) (fst lc) (snd lc) of
        Inl e \<Rightarrow> Inl e
      | Inr cell \<Rightarrow>
          if letter cell \<noteq> [ch] then Inr False
          else if lc \<in> usedCells st then Inr False
          else if \<exists>wi \<in> set (ctw lc). wi \<in> usedWords st then Inr False
          else Inr True)"

definition isFallbackCandidate :: "SolState \<Rightarrow> char \<Rightarrow> nat \<times> nat \<Rightarrow> error + bool" where
  "isFallbackCandidate st ch lc =
     (case cellAt (cells st) (fst lc) (snd lc) of
        Inl e \<Rightarrow> Inl e
      | Inr cell \<Rightarrow>
          if letter cell \<noteq> [ch] then Inr False
          else if lc \<in> usedCells st then Inr False
          else Inr True)"

text \<open>
  What both the strict rule and the first fallback do with the chosen cell, and what
  the last resort does with the cell it found.
\<close>

definition claimCell ::
  "SolState \<Rightarrow> (nat \<times> nat \<Rightarrow> nat list) \<Rightarrow> nat \<Rightarrow> nat \<times> nat \<Rightarrow> error + SolState" where
  "claimCell st ctw i chosen =
     (case modifyCell (cells st) (fst chosen) (snd chosen)
             (\<lambda>cell. cell\<lparr>isSolutionCell := True, solutionIndex := Some i\<rparr>) of
        Inl e \<Rightarrow> Inl e
      | Inr cg \<Rightarrow>
          Inr (st\<lparr>cells := cg,
                 assigned := assigned st @ [\<lparr>sc_row = fst chosen, sc_col = snd chosen, sc_index = i\<rparr>],
                 usedCells := insert chosen (usedCells st),
                 usedWords := usedWords st \<union> set (ctw chosen)\<rparr>))"

definition overwriteCell :: "SolState \<Rightarrow> char \<Rightarrow> nat \<Rightarrow> nat \<times> nat \<Rightarrow> error + SolState" where
  "overwriteCell st ch i anyCell =
     (case modifyCell (cells st) (fst anyCell) (snd anyCell)
             (\<lambda>cell. cell\<lparr>isSolutionCell := True, solutionIndex := Some i, letter := [ch]\<rparr>) of
        Inl e \<Rightarrow> Inl e
      | Inr cg \<Rightarrow>
          Inr (st\<lparr>cells := cg,
                 assigned := assigned st @ [\<lparr>sc_row = fst anyCell, sc_col = snd anyCell, sc_index = i\<rparr>],
                 usedCells := insert anyCell (usedCells st)\<rparr>))"

text \<open>The body of the loop over the letters of the solution word, at index \<open>i\<close>.\<close>

definition solutionStep ::
  "(nat \<Rightarrow> rat) \<Rightarrow> (nat \<times> nat) list \<Rightarrow> (nat \<times> nat \<Rightarrow> nat list) \<Rightarrow> nat \<Rightarrow> char \<Rightarrow> SolState
     \<Rightarrow> error + SolState" where
  "solutionStep rng letterCells ctw i ch st =
     (case shuffle rng (draws st) letterCells of
        Inl e \<Rightarrow> Inl e
      | Inr (sh, pos1) \<Rightarrow>
          (case filterE (isCandidate st ctw ch) sh of
             Inl e \<Rightarrow> Inl e
           | Inr (chosen # _) \<Rightarrow> claimCell (st\<lparr>draws := pos1\<rparr>) ctw i chosen
           | Inr [] \<Rightarrow>
               (case shuffle rng pos1 letterCells of
                  Inl e \<Rightarrow> Inl e
                | Inr (sh2, pos2) \<Rightarrow>
                    (case filterE (isFallbackCandidate st ch) sh2 of
                       Inl e \<Rightarrow> Inl e
                     | Inr (chosen # _) \<Rightarrow> claimCell (st\<lparr>draws := pos2\<rparr>) ctw i chosen
                     | Inr [] \<Rightarrow>
                         (case find (\<lambda>lc. lc \<notin> usedCells st) letterCells of
                            Some anyCell \<Rightarrow> overwriteCell (st\<lparr>draws := pos2\<rparr>) ch i anyCell
                          | None \<Rightarrow> Inr (st\<lparr>draws := pos2\<rparr>))))))"

fun solutionLoop ::
  "(nat \<Rightarrow> rat) \<Rightarrow> (nat \<times> nat) list \<Rightarrow> (nat \<times> nat \<Rightarrow> nat list) \<Rightarrow> nat \<Rightarrow> string \<Rightarrow> SolState
     \<Rightarrow> error + SolState" where
  "solutionLoop rng letterCells ctw i [] st = Inr st"
| "solutionLoop rng letterCells ctw i (ch # rest) st =
     (case solutionStep rng letterCells ctw i ch st of
        Inl e \<Rightarrow> Inl e
      | Inr st' \<Rightarrow> solutionLoop rng letterCells ctw (i + 1) rest st')"

section \<open>generatePuzzle\<close>

text \<open>
  The word pool and the list of solution words are imported from a module that is not
  among the sources; they are parameters here, with the random source. An empty list of
  solution words makes \<open>solutionWord\<close> undefined, and reading its length throws.
\<close>

definition generatePuzzleDraws ::
  "WordEntry list \<Rightarrow> string list \<Rightarrow> (nat \<Rightarrow> rat) \<Rightarrow> error + Puzzle \<times> nat" where
  "generatePuzzleDraws wordPool solutionWords rng =
     (let k = randomInt rng 0 (length solutionWords) in
      case attempts 8 rng 1 wordPool [] createEmptyGrid of
        Inl e \<Rightarrow> Inl e
      | Inr ((placed, bestGrid), pos) \<Rightarrow>
          let bestPlaced = numberClues placed in
          case buildCellGrid bestGrid of
            Inl e \<Rightarrow> Inl e
          | Inr cg0 \<Rightarrow>
              (case foldE setClueRefs bestPlaced cg0 of
                 Inl e \<Rightarrow> Inl e
               | Inr cellGrid \<Rightarrow>
                   (case letterCellsOf cellGrid of
                      Inl e \<Rightarrow> Inl e
                    | Inr letterCells \<Rightarrow>
                        if k < length solutionWords then
                          (case solutionLoop rng letterCells (cellToWords bestPlaced) 0
                                  (solutionWords ! k)
                                  \<lparr>cells = cellGrid, assigned = [], usedCells = {},
                                   usedWords = {}, draws = pos\<rparr> of
                             Inl e \<Rightarrow> Inl e
                           | Inr st \<Rightarrow>
                               Inr (\<lparr>grid = cells st, placedWords = bestPlaced,
                                     solutionWord = solutionWords ! k,
                                     solutionCells = assigned st\<rparr>, draws st))
                        else Inl TypeError)))"

text \<open>
  \<open>generatePuzzleDraws\<close> is the function with the number of calls of \<open>Math.random()\<close>
  it has made; \<open>generatePuzzle\<close> is what the caller gets.
\<close>

definition generatePuzzle ::
  "WordEntry list \<Rightarrow> string list \<Rightarrow> (nat \<Rightarrow> rat) \<Rightarrow> error + Puzzle" where
  "generatePuzzle wordPool solutionWords rng =
     (case generatePuzzleDraws wordPool solutionWords rng of
        Inl e \<Rightarrow> Inl e
      | Inr (p, n) \<Rightarrow> Inr p)"

section \<open>The legality rule as the specification words it\<close>

definition wfGrid :: "'a list list \<Rightarrow> bool" where
  "wfGrid g = (length g = GRID_SIZE \<and> (\<forall>rw \<in> set g. length rw = GRID_SIZE))"

definition cellFree :: "string list list \<Rightarrow> int \<Rightarrow> int \<Rightarrow> bool" where
  "cellFree g r c =
     (r < 0 \<or> int GRID_SIZE \<le> r \<or> c < 0 \<or> int GRID_SIZE \<le> c \<or> g ! nat r ! nat c = [])"

definition dirsAt :: "OccupiedMap \<Rightarrow> nat \<times> nat \<Rightarrow> direction set" where
  "dirsAt occupied k = (case occupied k of None \<Rightarrow> {} | Some s \<Rightarrow> s)"

definition fitsInGrid :: "nat \<Rightarrow> nat \<Rightarrow> nat \<Rightarrow> direction \<Rightarrow> bool" where
  "fitsInGrid len r0 c0 d =
     (if d = Across then r0 < GRID_SIZE \<and> c0 + len \<le> GRID_SIZE
      else c0 < GRID_SIZE \<and> r0 + len \<le> GRID_SIZE)"

definition letterOk ::
  "string list list \<Rightarrow> nat \<Rightarrow> nat \<Rightarrow> direction \<Rightarrow> OccupiedMap \<Rightarrow> nat \<Rightarrow> char \<Rightarrow> bool" where
  "letterOk g r0 c0 d occupied i ch =
     (case cellOf d r0 c0 i of (r, c) \<Rightarrow>
        if g ! r ! c \<noteq> [] then
          g ! r ! c = [ch] \<and> d \<notin> dirsAt occupied (r, c) \<and> otherDir d \<in> dirsAt occupied (r, c)
        else if d = Across then cellFree g (int r - 1) (int c) \<and> cellFree g (int r + 1) (int c)
        else cellFree g (int r) (int c - 1) \<and> cellFree g (int r) (int c + 1))"

definition cellTaken :: "string list list \<Rightarrow> nat \<Rightarrow> nat \<Rightarrow> direction \<Rightarrow> nat \<Rightarrow> bool" where
  "cellTaken g r0 c0 d i = (g ! fst (cellOf d r0 c0 i) ! snd (cellOf d r0 c0 i) \<noteq> [])"

definition intersections :: "string list list \<Rightarrow> nat \<Rightarrow> nat \<Rightarrow> direction \<Rightarrow> nat \<Rightarrow> nat" where
  "intersections g r0 c0 d len =
     length (filter (cellTaken g r0 c0 d) [0..<len])"

definition canPlaceSpec ::
  "string list list \<Rightarrow> string \<Rightarrow> nat \<Rightarrow> nat \<Rightarrow> direction \<Rightarrow> PlacedWord list \<Rightarrow> OccupiedMap \<Rightarrow> bool" where
  "canPlaceSpec g w r0 c0 d placed occupied =
     (fitsInGrid (length w) r0 c0 d
      \<and> (if d = Across
         then cellFree g (int r0) (int c0 - 1) \<and> cellFree g (int r0) (int c0 + int (length w))
         else cellFree g (int r0 - 1) (int c0) \<and> cellFree g (int r0 + int (length w)) (int c0))
      \<and> (\<forall>i < length w. letterOk g r0 c0 d occupied i (w ! i))
      \<and> (placed \<noteq> [] \<longrightarrow> 1 \<le> intersections g r0 c0 d (length w)))"

definition cellInGrid :: "nat \<Rightarrow> nat \<Rightarrow> direction \<Rightarrow> nat \<Rightarrow> bool" where
  "cellInGrid r0 c0 d i = (case cellOf d r0 c0 i of (r, c) \<Rightarrow> r < GRID_SIZE \<and> c < GRID_SIZE)"


definition centreRow :: "direction \<Rightarrow> nat \<Rightarrow> nat \<Rightarrow> rat" where
  "centreRow d r0 len = (if d = Across then of_nat r0 else of_nat r0 + of_nat len / 2)"

definition centreCol :: "direction \<Rightarrow> nat \<Rightarrow> nat \<Rightarrow> rat" where
  "centreCol d c0 len = (if d = Across then of_nat c0 + of_nat len / 2 else of_nat c0)"

definition scoreSpec :: "string list list \<Rightarrow> string \<Rightarrow> nat \<Rightarrow> nat \<Rightarrow> direction \<Rightarrow> rat" where
  "scoreSpec g w r0 c0 d =
     10 * of_nat (intersections g r0 c0 d (length w))
     - (1 / 2) * (\<bar>centreRow d r0 (length w) - 7\<bar> + \<bar>centreCol d c0 (length w) - 7\<bar>)"

definition committed ::
  "string list list \<Rightarrow> string list list \<Rightarrow> string \<Rightarrow> nat \<Rightarrow> nat \<Rightarrow> direction \<Rightarrow> bool" where
  "committed g g' w r0 c0 d =
     (wfGrid g'
      \<and> (\<forall>j < length w. g' ! fst (cellOf d r0 c0 j) ! snd (cellOf d r0 c0 j) = [w ! j])
      \<and> (\<forall>r < GRID_SIZE. \<forall>c < GRID_SIZE.
            (\<forall>j < length w. cellOf d r0 c0 j \<noteq> (r, c)) \<longrightarrow> g' ! r ! c = g ! r ! c))"

definition coveredBy :: "PlacedWord list \<Rightarrow> direction \<Rightarrow> nat \<times> nat \<Rightarrow> bool" where
  "coveredBy placed d k = (\<exists>pw \<in> set placed. direction pw = d \<and> k \<in> set (wordCells pw))"

definition allFit :: "PlacedWord list \<Rightarrow> bool" where
  "allFit placed =
     (\<forall>pw \<in> set placed. fitsInGrid (length (word pw)) (row pw) (col pw) (direction pw))"

definition lettersOnGrid :: "string list list \<Rightarrow> PlacedWord list \<Rightarrow> bool" where
  "lettersOnGrid g placed =
     (\<forall>pw \<in> set placed. \<forall>i < length (word pw).
        g ! fst (cellOf (direction pw) (row pw) (col pw) i)
          ! snd (cellOf (direction pw) (row pw) (col pw) i) = [word pw ! i])"

definition lettersCovered :: "string list list \<Rightarrow> PlacedWord list \<Rightarrow> bool" where
  "lettersCovered g placed =
     (\<forall>r < GRID_SIZE. \<forall>c < GRID_SIZE. g ! r ! c \<noteq> [] \<longrightarrow> (\<exists>d. coveredBy placed d (r, c)))"

definition noParallelOverlap :: "PlacedWord list \<Rightarrow> bool" where
  "noParallelOverlap placed =
     (\<forall>d k. length (filter (\<lambda>pw. direction pw = d \<and> k \<in> set (wordCells pw)) placed) \<le> 1)"

definition coversBoth :: "PlacedWord list \<Rightarrow> direction \<Rightarrow> nat \<times> nat \<Rightarrow> nat \<times> nat \<Rightarrow> bool" where
  "coversBoth placed d k k' =
     (\<exists>pw \<in> set placed. direction pw = d \<and> k \<in> set (wordCells pw) \<and> k' \<in> set (wordCells pw))"

definition runsAreWords :: "string list list \<Rightarrow> PlacedWord list \<Rightarrow> bool" where
  "runsAreWords g placed =
     (\<forall>r < GRID_SIZE. \<forall>c < GRID_SIZE. g ! r ! c \<noteq> [] \<longrightarrow>
        (c + 1 < GRID_SIZE \<longrightarrow> g ! r ! (c + 1) \<noteq> [] \<longrightarrow> coversBoth placed Across (r, c) (r, c + 1))
        \<and> (r + 1 < GRID_SIZE \<longrightarrow> g ! (r + 1) ! c \<noteq> [] \<longrightarrow> coversBoth placed Down (r, c) (r + 1, c)))"

definition startsInGrid :: "PlacedWord list \<Rightarrow> bool" where
  "startsInGrid placed = (\<forall>pw \<in> set placed. row pw < GRID_SIZE \<and> col pw < GRID_SIZE)"

definition layoutOk :: "string list list \<Rightarrow> PlacedWord list \<Rightarrow> bool" where
  "layoutOk g placed =
     (wfGrid g \<and> allFit placed \<and> startsInGrid placed \<and> lettersOnGrid g placed
      \<and> lettersCovered g placed \<and> noParallelOverlap placed \<and> runsAreWords g placed)"

type_synonym position = "direction \<times> nat \<times> nat"

definition toPlacement :: "(position \<Rightarrow> rat) \<Rightarrow> position \<Rightarrow> Placement" where
  "toPlacement sc p =
     (case p of (d, r, c) \<Rightarrow> \<lparr>p_row = r, p_col = c, p_direction = d, score = sc p\<rparr>)"

definition firstBest :: "('p \<Rightarrow> bool) \<Rightarrow> ('p \<Rightarrow> rat) \<Rightarrow> 'p list \<Rightarrow> 'p option" where
  "firstBest legal sc ps =
     (let L = filter legal ps in
      if L = [] then None else find (\<lambda>p. sc p = Max (sc ` set L)) L)"

definition legalAt ::
  "string list list \<Rightarrow> string \<Rightarrow> PlacedWord list \<Rightarrow> OccupiedMap \<Rightarrow> position \<Rightarrow> bool" where
  "legalAt g w placed occupied p = (case p of (d, r, c) \<Rightarrow> canPlaceSpec g w r c d placed occupied)"

definition scoreAt :: "string list list \<Rightarrow> string \<Rightarrow> position \<Rightarrow> rat" where
  "scoreAt g w p = (case p of (d, r, c) \<Rightarrow> scoreSpec g w r c d)"

definition scanBefore :: "position \<Rightarrow> position \<Rightarrow> bool" where
  "scanBefore p q =
     (case p of (d, r, c) \<Rightarrow> case q of (d', r', c') \<Rightarrow>
        (d = Across \<and> d' = Down) \<or> (d = d' \<and> (r < r' \<or> (r = r' \<and> c < c'))))"

fun pureScan :: "('p \<Rightarrow> bool) \<Rightarrow> ('p \<Rightarrow> rat) \<Rightarrow> 'p option \<Rightarrow> 'p list \<Rightarrow> 'p option" where
  "pureScan legal sc best [] = best"
| "pureScan legal sc best (p # ps) =
     pureScan legal sc
       (if legal p \<and> (case best of None \<Rightarrow> True | Some b \<Rightarrow> sc p > sc b) then Some p else best) ps"

definition chosenPlacement :: "string list list \<Rightarrow> string \<Rightarrow> PlacedWord list \<Rightarrow> position option" where
  "chosenPlacement g w placed =
     firstBest (legalAt g w placed (getOccupied placed)) (scoreAt g w) (scanPositions w)"

definition adjacentCells :: "nat \<times> nat \<Rightarrow> nat \<times> nat \<Rightarrow> bool" where
  "adjacentCells k k' =
     ((fst k = fst k' \<and> (snd k = snd k' + 1 \<or> snd k' = snd k + 1))
      \<or> (snd k = snd k' \<and> (fst k = fst k' + 1 \<or> fst k' = fst k + 1)))"

definition letterAt :: "PlacedWord \<Rightarrow> nat \<times> nat \<Rightarrow> char option" where
  "letterAt pw k = map_of (zip (wordCells pw) (word pw)) k"

definition crosswordLegal :: "PlacedWord list \<Rightarrow> bool" where
  "crosswordLegal ws =
     ((\<forall>i < length ws. \<forall>j < length ws. i \<noteq> j \<longrightarrow>
         (\<forall>k \<in> set (wordCells (ws ! i)) \<inter> set (wordCells (ws ! j)).
            direction (ws ! i) \<noteq> direction (ws ! j) \<and> letterAt (ws ! i) k = letterAt (ws ! j) k)
         \<and> (direction (ws ! i) = direction (ws ! j) \<longrightarrow>
              (\<forall>k \<in> set (wordCells (ws ! i)). \<forall>k' \<in> set (wordCells (ws ! j)).
                 adjacentCells k k' \<longrightarrow> coversBoth ws (otherDir (direction (ws ! i))) k k')))
      \<and> (\<forall>d k. length (filter (\<lambda>pw. direction pw = d \<and> k \<in> set (wordCells pw)) ws) \<le> 1))"

definition numberFree :: "(PlacedWord \<Rightarrow> bool) \<Rightarrow> bool" where
  "numberFree P = (\<forall>pw k. P (pw\<lparr>number := k\<rparr>) = P pw)"

definition sameLayout :: "PlacedWord list \<Rightarrow> PlacedWord list \<Rightarrow> bool" where
  "sameLayout xs ys = (\<forall>P. numberFree P \<longrightarrow> length (filter P ys) = length (filter P xs))"

definition sameField :: "(Cell \<Rightarrow> 'b) \<Rightarrow> Cell list list \<Rightarrow> Cell list list \<Rightarrow> bool" where
  "sameField h cg cg' = (\<forall>r < GRID_SIZE. \<forall>c < GRID_SIZE. h (cg' ! r ! c) = h (cg ! r ! c))"

definition startCell :: "PlacedWord \<Rightarrow> nat \<times> nat" where
  "startCell pw = (row pw, col pw)"

definition startNumbers :: "PlacedWord list \<Rightarrow> nat \<times> nat \<Rightarrow> nat list" where
  "startNumbers ws k = map number (filter (\<lambda>pw. startCell pw = k) ws)"

definition smallestOf :: "nat list \<Rightarrow> nat option" where
  "smallestOf ns = (if ns = [] then None else Some (Min (set ns)))"

definition lowerNumber :: "nat \<Rightarrow> nat option \<Rightarrow> nat option" where
  "lowerNumber n x = (case x of None \<Rightarrow> Some n | Some k \<Rightarrow> Some (min k n))"

definition inGrid :: "nat \<times> nat \<Rightarrow> bool" where
  "inGrid k = (fst k < GRID_SIZE \<and> snd k < GRID_SIZE)"

definition claimedAt :: "Cell list list \<Rightarrow> Cell list list \<Rightarrow> nat \<times> nat \<Rightarrow> nat \<Rightarrow> char \<Rightarrow> bool" where
  "claimedAt cg cg' lc i ch =
     (wfGrid cg'
      \<and> (\<forall>r < GRID_SIZE. \<forall>c < GRID_SIZE. (r, c) \<noteq> lc \<longrightarrow> cg' ! r ! c = cg ! r ! c)
      \<and> cg' ! fst lc ! snd lc
          = (cg ! fst lc ! snd lc)\<lparr>isSolutionCell := True, solutionIndex := Some i, letter := [ch]\<rparr>)"

definition stepOutcome ::
  "(nat \<times> nat) list \<Rightarrow> nat \<Rightarrow> char \<Rightarrow> SolState \<Rightarrow> SolState \<Rightarrow> bool" where
  "stepOutcome lcs i ch st st' =
     ((\<exists>lc. lc \<in> set lcs \<and> lc \<notin> usedCells st
          \<and> claimedAt (cells st) (cells st') lc i ch
          \<and> assigned st' = assigned st @ [\<lparr>sc_row = fst lc, sc_col = snd lc, sc_index = i\<rparr>]
          \<and> usedCells st' = insert lc (usedCells st)
          \<and> (letter (cells st ! fst lc ! snd lc) = [ch]
             \<or> ((\<forall>k \<in> set lcs. k \<notin> usedCells st \<longrightarrow> letter (cells st ! fst k ! snd k) \<noteq> [ch])
                \<and> find (\<lambda>k. k \<notin> usedCells st) lcs = Some lc)))
      \<or> ((\<forall>lc \<in> set lcs. lc \<in> usedCells st)
         \<and> cells st' = cells st \<and> assigned st' = assigned st \<and> usedCells st' = usedCells st))"

definition posOf :: "SolutionCell \<Rightarrow> nat \<times> nat" where
  "posOf sc = (sc_row sc, sc_col sc)"

definition solInv :: "(nat \<times> nat) list \<Rightarrow> string \<Rightarrow> SolState \<Rightarrow> nat \<Rightarrow> bool" where
  "solInv lcs w st i =
     (wfGrid (cells st)
      \<and> usedCells st = posOf ` set (assigned st)
      \<and> distinct (map posOf (assigned st))
      \<and> sorted_wrt (<) (map sc_index (assigned st))
      \<and> (\<forall>sc \<in> set (assigned st). sc_index sc < i)
      \<and> posOf ` set (assigned st) \<subseteq> set lcs
      \<and> (\<forall>r < GRID_SIZE. \<forall>c < GRID_SIZE.
            (isSolutionCell (cells st ! r ! c) \<longleftrightarrow> (r, c) \<in> usedCells st)
            \<and> ((r, c) \<notin> usedCells st \<longrightarrow> solutionIndex (cells st ! r ! c) = None))
      \<and> (\<forall>sc \<in> set (assigned st).
            solutionIndex (cells st ! sc_row sc ! sc_col sc) = Some (sc_index sc)
            \<and> letter (cells st ! sc_row sc ! sc_col sc) = [w ! sc_index sc])
      \<and> length (assigned st) = min i (length lcs))"

definition gridCells :: "(nat \<times> nat) list" where
  "gridCells = concat (map (\<lambda>r. map (\<lambda>c. (r, c)) [0..<GRID_SIZE]) [0..<GRID_SIZE])"

definition letterCellList :: "Cell list list \<Rightarrow> (nat \<times> nat) list" where
  "letterCellList cg = filter (\<lambda>rc. \<not> isBlack (cg ! fst rc ! snd rc)) gridCells"

definition rowMajorLe :: "nat \<times> nat \<Rightarrow> nat \<times> nat \<Rightarrow> bool" where
  "rowMajorLe k k' = (fst k < fst k' \<or> (fst k = fst k' \<and> snd k \<le> snd k'))"

definition cluesNumbered :: "PlacedWord list \<Rightarrow> bool" where
  "cluesNumbered ws =
     (sorted_wrt rowMajorLe (map startCell ws)
      \<and> (\<forall>pw \<in> set ws. number pw = card {s \<in> startCell ` set ws. rowMajorLe s (startCell pw)})
      \<and> (\<forall>pw \<in> set ws. \<forall>q \<in> set ws. startCell pw = startCell q \<longrightarrow> number pw = number q))"

definition solutionCovered :: "Puzzle \<Rightarrow> bool" where
  "solutionCovered p =
     (length (solutionCells p) = min (length (solutionWord p)) (length (letterCellList (grid p)))
      \<and> (\<forall>sc \<in> set (solutionCells p).
            inGrid (posOf sc) \<and> sc_index sc < length (solutionWord p)
            \<and> letter (grid p ! sc_row sc ! sc_col sc) = [solutionWord p ! sc_index sc]))"

definition overlayConsistent :: "Puzzle \<Rightarrow> bool" where
  "overlayConsistent p =
     (wfGrid (grid p)
      \<and> distinct (map posOf (solutionCells p))
      \<and> sorted_wrt (<) (map sc_index (solutionCells p))
      \<and> (\<forall>r < GRID_SIZE. \<forall>c < GRID_SIZE.
            (isSolutionCell (grid p ! r ! c) \<longleftrightarrow> (r, c) \<in> posOf ` set (solutionCells p))
            \<and> ((r, c) \<notin> posOf ` set (solutionCells p) \<longrightarrow> solutionIndex (grid p ! r ! c) = None))
      \<and> (\<forall>sc \<in> set (solutionCells p).
            solutionIndex (grid p ! sc_row sc ! sc_col sc) = Some (sc_index sc)))"

definition cellNumbersSmallest :: "Puzzle \<Rightarrow> bool" where
  "cellNumbersSmallest p =
     (\<forall>r < GRID_SIZE. \<forall>c < GRID_SIZE.
        cell_number (grid p ! r ! c) = smallestOf (startNumbers (placedWords p) (r, c)))"

text \<open>Two random sources that give the same numbers at the positions from \<open>a\<close> up to \<open>b\<close>.\<close>

definition sameDraws :: "(nat \<Rightarrow> rat) \<Rightarrow> (nat \<Rightarrow> rat) \<Rightarrow> nat \<Rightarrow> nat \<Rightarrow> bool" where
  "sameDraws rng rng' a b = (\<forall>k. a \<le> k \<and> k < b \<longrightarrow> rng' k = rng k)"

definition bestOf :: "(position \<Rightarrow> bool) \<Rightarrow> (position \<Rightarrow> rat) \<Rightarrow> position option \<Rightarrow> bool" where
  "bestOf legal sc best =
     (case best of
        None \<Rightarrow> (\<forall>p. \<not> legal p)
      | Some b \<Rightarrow>
          legal b \<and> (\<forall>p. legal p \<longrightarrow> sc p \<le> sc b \<and> (sc p = sc b \<longrightarrow> p = b \<or> scanBefore b p)))"

definition wordStep ::
  "WordEntry \<Rightarrow> string list list \<Rightarrow> PlacedWord list \<Rightarrow> position option
     \<Rightarrow> string list list \<Rightarrow> PlacedWord list \<Rightarrow> bool" where
  "wordStep e g placed best g' placed' =
     (case best of
        None \<Rightarrow> g' = g \<and> placed' = placed
      | Some p \<Rightarrow>
          if scoreAt g (entry_word e) p > 0
          then committed g g' (entry_word e) (fst (snd p)) (snd (snd p)) (fst p)
               \<and> placed' = placed @ [newPlaced e (fst (snd p)) (snd (snd p)) (fst p)]
          else g' = g \<and> placed' = placed)"

section \<open>A small layout used for the concrete checks\<close>

definition exampleGrid :: "string list list" where
  "exampleGrid =
     createEmptyGrid[7 := replicate 5 [] @ [''H'', ''O'', ''U'', ''S'', ''E''] @ replicate 5 []]"

definition examplePlaced :: "PlacedWord list" where
  "examplePlaced =
     [\<lparr>word = ''HOUSE'', clue = ''home'', row = 7, col = 5, direction = Across, number = 0\<rparr>]"

definition zeroRng :: "nat \<Rightarrow> rat" where
  "zeroRng = (\<lambda>_. 0)"

definition mkEntry :: "string \<Rightarrow> WordEntry" where
  "mkEntry w = \<lparr>entry_word = w, entry_clue = [], category = []\<rparr>"

definition shortPool :: "WordEntry list" where
  "shortPool = [mkEntry ''AB'']"

definition helloWords :: "string list" where
  "helloWords = [''HELLO'']"

definition shortPuzzle :: Puzzle where
  "shortPuzzle = projr (generatePuzzle shortPool helloWords zeroRng)"

definition longPool :: "WordEntry list" where
  "longPool = [mkEntry ''INTERNATIONAL'', mkEntry ''ENTERTAINMENT'']"

definition tenWords :: "string list" where
  "tenWords = [''TEN'']"

definition longPuzzle :: Puzzle where
  "longPuzzle = projr (generatePuzzle longPool tenWords zeroRng)"

definition skipPool :: "WordEntry list" where
  "skipPool = [mkEntry ''PUZZLE'', mkEntry ''GRID'']"

definition skipPuzzle :: Puzzle where
  "skipPuzzle = projr (generatePuzzle skipPool helloWords zeroRng)"

definition skipGrid :: "string list list" where
  "skipGrid = createEmptyGrid[7 := replicate 5 [] @ [''G'', ''R'', ''I'', ''D''] @ replicate 6 []]"

definition skipPlaced :: "PlacedWord list" where
  "skipPlaced = [\<lparr>word = ''GRID'', clue = [], row = 7, col = 5, direction = Across, number = 0\<rparr>]"

definition fullState :: SolState where
  "fullState = \<lparr>cells = grid shortPuzzle, assigned = solutionCells shortPuzzle,
                 usedCells = {(7, 6), (7, 7)}, usedWords = {}, draws = 0\<rparr>"

definition freshState :: SolState where
  "freshState = \<lparr>cells = grid shortPuzzle, assigned = [],
                  usedCells = {}, usedWords = {}, draws = 0\<rparr>"

definition laterRng :: "nat \<Rightarrow> rat" where
  "laterRng = (\<lambda>n. if n < 11 then 0 else 1 / 2)"

definition capWords :: "string list" where
  "capWords =
    [''SNAKE'', ''HARBOR'', ''WHALE'', ''BRIDGE'', ''OTTER'', ''SIGNAL'', ''ELK'', ''TON'',
     ''TWO'', ''ARIA'', ''MOON'', ''EASE'', ''ANSWER'', ''TERN'', ''ROSE'', ''PLANT'',
     ''GREEN'', ''SET'', ''BROWN'', ''ERA'', ''STONE'', ''TIN'', ''RIDDLE'', ''NEAR'', ''ONE'',
     ''ATE'', ''WEST'', ''MOSS'']"

definition capPool :: "WordEntry list" where
  "capPool = map mkEntry (''TEACHER'' # capWords)"

definition capOrder :: "WordEntry list" where
  "capOrder = map mkEntry (capWords @ [''TEACHER''])"

definition capLayout :: "(string \<times> nat \<times> nat \<times> direction) list" where
  "capLayout =
    [(''SNAKE'', 7, 5, Across), (''HARBOR'', 6, 7, Down), (''WHALE'', 3, 9, Down),
     (''BRIDGE'', 9, 7, Across), (''OTTER'', 11, 3, Across), (''SIGNAL'', 7, 11, Down),
     (''ELK'', 11, 6, Down), (''TON'', 10, 3, Down), (''TWO'', 3, 8, Across),
     (''ARIA'', 5, 9, Across), (''MOON'', 12, 0, Across), (''EASE'', 5, 5, Down),
     (''ANSWER'', 5, 1, Across), (''TERN'', 2, 2, Down), (''ROSE'', 8, 2, Across),
     (''PLANT'', 11, 9, Across), (''GREEN'', 3, 0, Across), (''SET'', 7, 11, Across),
     (''BROWN'', 10, 1, Down), (''ERA'', 7, 2, Down), (''STONE'', 10, 13, Down),
     (''TIN'', 1, 4, Down), (''RIDDLE'', 14, 8, Across), (''NEAR'', 2, 6, Down),
     (''ONE'', 7, 0, Across), (''ATE'', 5, 12, Down), (''WEST'', 0, 8, Down),
     (''MOSS'', 6, 0, Down)]"

fun writeWords ::
  "(string \<times> nat \<times> nat \<times> direction) list \<Rightarrow> string list list \<Rightarrow> string list list" where
  "writeWords [] g = g"
| "writeWords ((w, r, c, d) # ws) g = writeWords ws (projr (placeWord g w r c d))"

definition capGridAt :: "nat \<Rightarrow> string list list" where
  "capGridAt k = writeWords (take k capLayout) createEmptyGrid"

definition capPlacedAt :: "nat \<Rightarrow> PlacedWord list" where
  "capPlacedAt k =
     map (\<lambda>(w, r, c, d). \<lparr>word = w, clue = [], row = r, col = c, direction = d, number = 0\<rparr>)
       (take k capLayout)"

section \<open>The legality check meets its rule\<close>

lemma getAt_wf: "wfGrid g \<Longrightarrow> r < GRID_SIZE \<Longrightarrow> c < GRID_SIZE \<Longrightarrow> getAt g r c = Inr (g ! r ! c)"
  by (simp add: getAt_def wfGrid_def)

lemma getAt_row_out: "wfGrid g \<Longrightarrow> \<not> r < GRID_SIZE \<Longrightarrow> getAt g r c = Inl TypeError"
  by (simp add: getAt_def wfGrid_def)

lemma getAt_col_out: "wfGrid g \<Longrightarrow> r < GRID_SIZE \<Longrightarrow> \<not> c < GRID_SIZE \<Longrightarrow> getAt g r c = Inl IndexOutOfRange"
  by (simp add: getAt_def wfGrid_def)

lemma checkLetter_in_grid:
  assumes "wfGrid g" and "cellOf d r0 c0 i = (r, c)" and "r < GRID_SIZE" and "c < GRID_SIZE"
  shows "checkLetter g r0 c0 d occupied i ch =
           Inr (if letterOk g r0 c0 d occupied i ch
                then Some (if g ! r ! c \<noteq> [] then 1 else 0) else None)"
proof (cases d)
  case Across
  with assms(2) have rc: "r0 = r" "c0 + i = c" by (auto simp: cellOf_def)
  have up: "r > 0 \<Longrightarrow> getAt g (r - 1) c = Inr (g ! (r - 1) ! c)"
    using assms by (simp add: getAt_wf)
  have dn: "r < GRID_SIZE - 1 \<Longrightarrow> getAt g (r + 1) c = Inr (g ! (r + 1) ! c)"
    using assms by (simp add: getAt_wf)
  show ?thesis
    using assms(1,3,4) Across rc up dn
    by (auto simp: checkLetter_def letterOk_def cellOf_def Let_def getAt_wf dirsAt_def
        cellFree_def otherDir_def GRID_SIZE_def nat_diff_distrib nat_add_distrib
        split: option.splits)
next
  case Down
  with assms(2) have rc: "r0 + i = r" "c0 = c" by (auto simp: cellOf_def)
  have lf: "c > 0 \<Longrightarrow> getAt g r (c - 1) = Inr (g ! r ! (c - 1))"
    using assms by (simp add: getAt_wf)
  have rt: "c < GRID_SIZE - 1 \<Longrightarrow> getAt g r (c + 1) = Inr (g ! r ! (c + 1))"
    using assms by (simp add: getAt_wf)
  show ?thesis
    using assms(1,3,4) Down rc lf rt
    by (auto simp: checkLetter_def letterOk_def cellOf_def Let_def getAt_wf dirsAt_def
        cellFree_def otherDir_def GRID_SIZE_def nat_diff_distrib nat_add_distrib
        split: option.splits)
qed



lemma intersections_alt:
  "intersections g r0 c0 d len = length (filter (cellTaken g r0 c0 d) [0..<len])"
  by (simp add: intersections_def)

lemma checkLetter_taken:
  assumes "wfGrid g" and "cellInGrid r0 c0 d i"
  shows "checkLetter g r0 c0 d occupied i ch =
           Inr (if letterOk g r0 c0 d occupied i ch
                then Some (if cellTaken g r0 c0 d i then 1 else 0) else None)"
proof -
  obtain r c where rc: "cellOf d r0 c0 i = (r, c)" by (cases "cellOf d r0 c0 i")
  with assms(2) have "r < GRID_SIZE" "c < GRID_SIZE" by (simp_all add: cellInGrid_def)
  from checkLetter_in_grid [OF assms(1) rc this] show ?thesis
    by (simp add: cellTaken_def rc)
qed

lemma letterLoop_in_grid:
  assumes "wfGrid g"
  shows "(\<forall>j < length rest. cellInGrid r0 c0 d (i + j)) \<Longrightarrow>
         letterLoop g r0 c0 d occupied i rest cnt =
           Inr (if \<forall>j < length rest. letterOk g r0 c0 d occupied (i + j) (rest ! j)
                then Some (cnt + length (filter (cellTaken g r0 c0 d) [i..<i + length rest]))
                else None)"
proof (induction rest arbitrary: i cnt)
  case Nil
  show ?case by simp
next
  case (Cons ch rest)
  from Cons.prems have here: "cellInGrid r0 c0 d i" by force
  from Cons.prems have later: "\<forall>j < length rest. cellInGrid r0 c0 d (Suc i + j)" by force
  note step = checkLetter_taken [OF assms here, of occupied ch]
  have split_all: "(\<forall>j < Suc (length rest). letterOk g r0 c0 d occupied (i + j) ((ch # rest) ! j))
      \<longleftrightarrow> letterOk g r0 c0 d occupied i ch
          \<and> (\<forall>j < length rest. letterOk g r0 c0 d occupied (Suc i + j) (rest ! j))"
    by (auto simp: less_Suc_eq_0_disj)
  have upt: "[i..<Suc (i + length rest)] = i # [Suc i..<Suc (i + length rest)]"
    by (simp add: upt_conv_Cons del: upt_Suc)
  show ?case
    using Cons.IH [OF later, of "cnt + (if cellTaken g r0 c0 d i then 1 else 0)"]
    by (simp add: step split_all upt del: upt_Suc)
qed

lemma cellFree_nat:
  "cellFree g (int r) (int c) \<longleftrightarrow> GRID_SIZE \<le> r \<or> GRID_SIZE \<le> c \<or> g ! r ! c = []"
  by (auto simp: cellFree_def)

lemma cellFree_row_pred:
  "cellFree g (int r - 1) (int c) \<longleftrightarrow>
     r = 0 \<or> GRID_SIZE < r \<or> GRID_SIZE \<le> c \<or> g ! (r - 1) ! c = []"
  by (cases r) (auto simp: cellFree_def nat_diff_distrib)

lemma cellFree_col_pred:
  "cellFree g (int r) (int c - 1) \<longleftrightarrow>
     c = 0 \<or> GRID_SIZE \<le> r \<or> GRID_SIZE < c \<or> g ! r ! (c - 1) = []"
  by (cases c) (auto simp: cellFree_def nat_diff_distrib)

lemma cellFree_row_add:
  "cellFree g (int r + int n) (int c) \<longleftrightarrow>
     GRID_SIZE \<le> r + n \<or> GRID_SIZE \<le> c \<or> g ! (r + n) ! c = []"
  using cellFree_nat [of g "r + n" c] by simp

lemma cellFree_col_add:
  "cellFree g (int r) (int c + int n) \<longleftrightarrow>
     GRID_SIZE \<le> r \<or> GRID_SIZE \<le> c + n \<or> g ! r ! (c + n) = []"
  using cellFree_nat [of g r "c + n"] by simp

lemma cellFree_row_succ:
  "cellFree g (int r + 1) (int c) \<longleftrightarrow>
     GRID_SIZE \<le> r + 1 \<or> GRID_SIZE \<le> c \<or> g ! (r + 1) ! c = []"
  using cellFree_nat [of g "r + 1" c] by (simp add: add.commute)

lemma cellFree_col_succ:
  "cellFree g (int r) (int c + 1) \<longleftrightarrow>
     GRID_SIZE \<le> r \<or> GRID_SIZE \<le> c + 1 \<or> g ! r ! (c + 1) = []"
  using cellFree_nat [of g r "c + 1"] by (simp add: add.commute)

lemmas cellFree_simps =
  cellFree_row_pred cellFree_col_pred cellFree_row_add cellFree_col_add
  cellFree_row_succ cellFree_col_succ cellFree_nat

lemma fits_cellInGrid:
  "fitsInGrid len r0 c0 d \<Longrightarrow> i < len \<Longrightarrow> cellInGrid r0 c0 d i"
  by (auto simp: fitsInGrid_def cellInGrid_def cellOf_def split: if_splits)

lemma canPlaceWord_fits:
  assumes "wfGrid g" and "fitsInGrid (length w) r0 c0 d"
  shows "canPlaceWord g w r0 c0 d placed occupied = Inr (canPlaceSpec g w r0 c0 d placed occupied)"
proof -
  have loop: "letterLoop g r0 c0 d occupied 0 w 0 =
      Inr (if \<forall>j < length w. letterOk g r0 c0 d occupied j (w ! j)
           then Some (intersections g r0 c0 d (length w)) else None)"
    using letterLoop_in_grid [OF assms(1), of w r0 c0 d 0 occupied 0] fits_cellInGrid [OF assms(2)]
    by (simp add: intersections_alt)
  show ?thesis
  proof (cases d)
    case Across
    with assms(2) have b: "r0 < GRID_SIZE" "c0 + length w \<le> GRID_SIZE"
      by (simp_all add: fitsInGrid_def)
    define cb where "cb = (if c0 > 0 then g ! r0 ! (c0 - 1) else [])"
    define ca where "ca = (if c0 + length w < GRID_SIZE then g ! r0 ! (c0 + length w) else [])"
    have bef: "(if c0 > 0 then getAt g r0 (c0 - 1) else Inr []) = Inr cb"
      using assms(1) b by (simp add: getAt_wf cb_def)
    have aft: "(if c0 + length w < GRID_SIZE then getAt g r0 (c0 + length w) else Inr []) = Inr ca"
      using assms(1) b by (simp add: getAt_wf ca_def)
    have fb: "cellFree g (int r0) (int c0 - 1) \<longleftrightarrow> cb = []"
      using b by (auto simp: cellFree_col_pred cb_def)
    have fa: "cellFree g (int r0) (int c0 + int (length w)) \<longleftrightarrow> ca = []"
      using b by (auto simp: cellFree_col_add ca_def)
    show ?thesis
      using b assms(2) loop unfolding Across
      by (simp add: canPlaceWord_def canPlaceSpec_def Let_def bef aft fb fa)
  next
    case Down
    with assms(2) have b: "c0 < GRID_SIZE" "r0 + length w \<le> GRID_SIZE"
      by (simp_all add: fitsInGrid_def)
    define cb where "cb = (if r0 > 0 then g ! (r0 - 1) ! c0 else [])"
    define ca where "ca = (if r0 + length w < GRID_SIZE then g ! (r0 + length w) ! c0 else [])"
    have bef: "(if r0 > 0 then getAt g (r0 - 1) c0 else Inr []) = Inr cb"
      using assms(1) b by (simp add: getAt_wf cb_def)
    have aft: "(if r0 + length w < GRID_SIZE then getAt g (r0 + length w) c0 else Inr []) = Inr ca"
      using assms(1) b by (simp add: getAt_wf ca_def)
    have fb: "cellFree g (int r0 - 1) (int c0) \<longleftrightarrow> cb = []"
      using b by (auto simp: cellFree_row_pred cb_def)
    have fa: "cellFree g (int r0 + int (length w)) (int c0) \<longleftrightarrow> ca = []"
      using b by (auto simp: cellFree_row_add ca_def)
    show ?thesis
      using b assms(2) loop unfolding Down
      by (simp add: canPlaceWord_def canPlaceSpec_def Let_def bef aft fb fa)
  qed
qed

lemma letterLoop_first_error:
  "getAt g (fst (cellOf d r0 c0 i)) (snd (cellOf d r0 c0 i)) = Inl e \<Longrightarrow>
   letterLoop g r0 c0 d occupied i (ch # rest) cnt = Inl e"
  by (cases d) (simp_all add: checkLetter_def cellOf_def Let_def)

lemma canPlaceWord_not_fits:
  assumes "wfGrid g" and "\<not> fitsInGrid (length w) r0 c0 d"
  shows "canPlaceWord g w r0 c0 d placed occupied \<noteq> Inr True"
proof (cases d)
  case Across
  show ?thesis
  proof (cases "c0 + length w > GRID_SIZE")
    case True
    with Across show ?thesis by (simp add: canPlaceWord_def Let_def)
  next
    case False
    with assms(2) Across have r: "\<not> r0 < GRID_SIZE" by (simp add: fitsInGrid_def)
    note bad = getAt_row_out [OF assms(1) r]
    show ?thesis
    proof (cases w)
      case Nil
      with Across False show ?thesis
        by (auto simp: canPlaceWord_def Let_def bad GRID_SIZE_def)
    next
      case (Cons ch rest)
      have "letterLoop g r0 c0 d occupied 0 (ch # rest) 0 = Inl TypeError"
        by (rule letterLoop_first_error) (simp add: cellOf_def Across bad)
      with Across Cons show ?thesis
        by (auto simp: canPlaceWord_def Let_def bad)
    qed
  qed
next
  case Down
  show ?thesis
  proof (cases "r0 + length w > GRID_SIZE")
    case True
    with Down show ?thesis by (simp add: canPlaceWord_def Let_def)
  next
    case False
    with assms(2) Down have c: "\<not> c0 < GRID_SIZE" by (simp add: fitsInGrid_def)
    have bad: "r < GRID_SIZE \<Longrightarrow> getAt g r c0 = Inl IndexOutOfRange" for r
      using getAt_col_out [OF assms(1) _ c] .
    show ?thesis
    proof (cases w)
      case Nil
      with Down False show ?thesis
        by (auto simp: canPlaceWord_def Let_def bad GRID_SIZE_def)
    next
      case (Cons ch rest)
      with False have "r0 < GRID_SIZE" by simp
      then have "letterLoop g r0 c0 d occupied 0 (ch # rest) 0 = Inl IndexOutOfRange"
        by (intro letterLoop_first_error) (simp add: cellOf_def Down bad)
      with Down Cons False show ?thesis
        by (auto simp: canPlaceWord_def Let_def bad)
    qed
  qed
qed

lemma canPlaceWord_true_iff:
  assumes "wfGrid g"
  shows "canPlaceWord g w r0 c0 d placed occupied = Inr True
           \<longleftrightarrow> canPlaceSpec g w r0 c0 d placed occupied"
proof (cases "fitsInGrid (length w) r0 c0 d")
  case True
  from canPlaceWord_fits [OF assms True] show ?thesis by simp
next
  case False
  from canPlaceWord_not_fits [OF assms False] False show ?thesis
    by (simp add: canPlaceSpec_def)
qed

text \<open>
  Claim C1. On a 15 by 15 grid, \<open>canPlaceWord\<close> returns true exactly when the word fits
  inside the grid in its orientation, the cell before its start and the cell after its
  end along its axis are empty or off the grid, every letter position is legal (an occupied
  target cell holds the same letter, is not occupied by a word of the same orientation
  and is occupied by a word of the other orientation, which counts as one intersection;
  an empty target cell has both neighbours across the axis empty or off the grid), and
  there is at least one intersection whenever the list of placed words is not empty.
\<close>

theorem canPlaceWord_iff_spec:
  assumes "wfGrid g"
  shows "canPlaceWord g w r0 c0 d placed occupied = Inr True
           \<longleftrightarrow> canPlaceSpec g w r0 c0 d placed occupied"
  using assms by (rule canPlaceWord_true_iff)

lemma wfGrid_createEmptyGrid: "wfGrid createEmptyGrid"
  by (simp add: wfGrid_def createEmptyGrid_def)

lemma wfGrid_update: "wfGrid g \<Longrightarrow> length v = GRID_SIZE \<Longrightarrow> wfGrid (g[r := v])"
  using set_update_subset_insert [of g r v] by (auto simp: wfGrid_def)

lemma wfGrid_exampleGrid: "wfGrid exampleGrid"
  by (simp add: exampleGrid_def wfGrid_update wfGrid_createEmptyGrid GRID_SIZE_def)

lemma example_canPlace:
  "canPlaceWord exampleGrid ''MOUSE'' 5 7 Down examplePlaced (getOccupied examplePlaced) = Inr True"
  by code_simp

theorem canPlaceWord_iff_spec_witness:
  "wfGrid exampleGrid
   \<and> canPlaceWord exampleGrid ''MOUSE'' 5 7 Down examplePlaced (getOccupied examplePlaced) = Inr True
   \<and> canPlaceSpec exampleGrid ''MOUSE'' 5 7 Down examplePlaced (getOccupied examplePlaced)"
  using canPlaceWord_iff_spec [OF wfGrid_exampleGrid, of "''MOUSE''" 5 7 Down examplePlaced
      "getOccupied examplePlaced"] wfGrid_exampleGrid example_canPlace
  by simp

section \<open>The score of a legal placement\<close>

lemma scoreLoop_legal:
  assumes "wfGrid g"
  shows "(\<forall>j < length rest. cellInGrid r0 c0 d (i + j)) \<Longrightarrow>
         (\<forall>j < length rest. letterOk g r0 c0 d occupied (i + j) (rest ! j)) \<Longrightarrow>
         scoreLoop g rest r0 c0 d i sc =
           Inr (sc + 10 * of_nat (length (filter (cellTaken g r0 c0 d) [i..<i + length rest])))"
proof (induction rest arbitrary: i sc)
  case Nil
  show ?case by simp
next
  case (Cons ch rest)
  from Cons.prems(1) have here: "cellInGrid r0 c0 d i" by force
  from Cons.prems(1) have later: "\<forall>j < length rest. cellInGrid r0 c0 d (Suc i + j)" by force
  from Cons.prems(2) have ok: "letterOk g r0 c0 d occupied i ch" by force
  from Cons.prems(2) have oks: "\<forall>j < length rest. letterOk g r0 c0 d occupied (Suc i + j) (rest ! j)"
    by force
  obtain r c where rc: "cellOf d r0 c0 i = (r, c)" by (cases "cellOf d r0 c0 i")
  with here have inb: "r < GRID_SIZE" "c < GRID_SIZE" by (simp_all add: cellInGrid_def)
  have rd: "getAt g (if d = Across then r0 else r0 + i) (if d = Across then c0 + i else c0)
             = Inr (g ! r ! c)"
    using rc inb assms by (auto simp: cellOf_def getAt_wf split: if_splits)
  have hit: "(g ! r ! c = [ch] \<and> g ! r ! c \<noteq> []) \<longleftrightarrow> cellTaken g r0 c0 d i"
    using ok rc by (auto simp: letterOk_def cellTaken_def)
  have upt: "[i..<Suc (i + length rest)] = i # [Suc i..<Suc (i + length rest)]"
    by (simp add: upt_conv_Cons del: upt_Suc)
  show ?case
    using Cons.IH [OF later oks, of "if cellTaken g r0 c0 d i then sc + 10 else sc"] hit
    by (simp add: rd Let_def upt del: upt_Suc)
qed

lemma placementScore_legal:
  assumes "wfGrid g" and "canPlaceSpec g w r0 c0 d placed occupied"
  shows "placementScore g w r0 c0 d = Inr (scoreSpec g w r0 c0 d)"
proof -
  from assms(2) have fits: "fitsInGrid (length w) r0 c0 d"
    and oks: "\<forall>i < length w. letterOk g r0 c0 d occupied i (w ! i)"
    by (simp_all add: canPlaceSpec_def)
  have "scoreLoop g w r0 c0 d 0 0 = Inr (10 * of_nat (intersections g r0 c0 d (length w)))"
    using scoreLoop_legal [OF assms(1), of w r0 c0 d 0 occupied 0] fits_cellInGrid [OF fits] oks
    by (simp add: intersections_def)
  then show ?thesis
    by (simp add: placementScore_def scoreSpec_def centreRow_def centreCol_def Let_def)
qed

text \<open>
  Claim C5. A placement that passes the legality check is scored 10 for each letter that
  falls on a letter already on the grid (each is an intersection), minus half the sum of
  the absolute offsets of the row and of the column of the word's centre from the middle
  row and column 7 of the grid; the centre is the start cell moved by half the word's
  length along the word.
\<close>

theorem score_of_legal_placement:
  assumes "wfGrid g" and "canPlaceWord g w r0 c0 d placed occupied = Inr True"
  shows "placementScore g w r0 c0 d = Inr (scoreSpec g w r0 c0 d)"
  using assms placementScore_legal [of g w r0 c0 d placed occupied]
  by (simp add: canPlaceWord_true_iff)

lemma example_score: "placementScore exampleGrid ''MOUSE'' 5 7 Down = Inr (39 / 4)"
  by code_simp

theorem score_of_legal_placement_witness:
  "wfGrid exampleGrid
   \<and> canPlaceWord exampleGrid ''MOUSE'' 5 7 Down examplePlaced (getOccupied examplePlaced) = Inr True
   \<and> scoreSpec exampleGrid ''MOUSE'' 5 7 Down = 39 / 4"
  using score_of_legal_placement [OF wfGrid_exampleGrid example_canPlace]
    wfGrid_exampleGrid example_canPlace example_score
  by simp

section \<open>Writing a word, and the occupancy map\<close>

lemma cellOf_inj: "cellOf d r0 c0 i = cellOf d r0 c0 j \<longleftrightarrow> i = j"
  by (auto simp: cellOf_def)

lemma wfGrid_row: "wfGrid g \<Longrightarrow> r < GRID_SIZE \<Longrightarrow> length (g ! r) = GRID_SIZE"
  by (simp add: wfGrid_def)

lemma wfGrid_length: "wfGrid g \<Longrightarrow> length g = GRID_SIZE"
  by (simp add: wfGrid_def)

lemma setAt_wf:
  assumes "wfGrid g" and "r < GRID_SIZE" and "c < GRID_SIZE"
  shows "setAt g r c v = Inr (g[r := (g ! r)[c := v]])"
  using assms by (simp add: setAt_def wfGrid_def)

lemma wfGrid_put:
  assumes "wfGrid g"
  shows "wfGrid (g[r := (g ! r)[c := v]])"
proof (cases "r < GRID_SIZE")
  case True
  with assms show ?thesis by (intro wfGrid_update) (simp_all add: wfGrid_row)
next
  case False
  with assms have "length g \<le> r" by (simp add: wfGrid_def)
  then have "g[r := (g ! r)[c := v]] = g" by (rule list_update_beyond)
  with assms show ?thesis by simp
qed

lemma put_nth:
  assumes "wfGrid g" and "r' < GRID_SIZE" and "c' < GRID_SIZE"
  shows "g[r := (g ! r)[c := v]] ! r' ! c' = (if r' = r \<and> c' = c then v else g ! r' ! c')"
proof (cases "r' = r")
  case True
  with assms show ?thesis by (simp add: wfGrid_def nth_list_update)
next
  case False
  then show ?thesis by simp
qed

lemma placeWordFrom_effect:
  assumes "\<forall>j < length rest. cellInGrid r0 c0 d (i + j)"
  shows "wfGrid g \<Longrightarrow>
         \<exists>g'. placeWordFrom g rest r0 c0 d i = Inr g' \<and> wfGrid g'
            \<and> (\<forall>j < length rest. g' ! fst (cellOf d r0 c0 (i + j)) ! snd (cellOf d r0 c0 (i + j)) = [rest ! j])
            \<and> (\<forall>r < GRID_SIZE. \<forall>c < GRID_SIZE.
                  (\<forall>j < length rest. cellOf d r0 c0 (i + j) \<noteq> (r, c)) \<longrightarrow> g' ! r ! c = g ! r ! c)"
  using assms
proof (induction rest arbitrary: i g)
  case Nil
  then show ?case by simp
next
  case (Cons ch rest)
  obtain r c where rc: "cellOf d r0 c0 i = (r, c)" by (cases "cellOf d r0 c0 i")
  from Cons.prems(2) have "cellInGrid r0 c0 d i" by force
  with rc have inb: "r < GRID_SIZE" "c < GRID_SIZE" by (simp_all add: cellInGrid_def)
  define g1 where "g1 = g[r := (g ! r)[c := [ch]]]"
  have step: "(if d = Across then setAt g r0 (c0 + i) [ch] else setAt g (r0 + i) c0 [ch]) = Inr g1"
    using rc inb Cons.prems(1) by (auto simp: cellOf_def setAt_wf g1_def split: if_splits)
  have wf1: "wfGrid g1" using Cons.prems(1) by (simp add: g1_def wfGrid_put)
  from Cons.prems(2) have later: "\<forall>j < length rest. cellInGrid r0 c0 d (Suc i + j)" by force
  from Cons.IH [OF wf1 later] obtain g' where
    run: "placeWordFrom g1 rest r0 c0 d (Suc i) = Inr g'" and wf': "wfGrid g'"
    and new: "\<forall>j < length rest. g' ! fst (cellOf d r0 c0 (Suc i + j)) ! snd (cellOf d r0 c0 (Suc i + j)) = [rest ! j]"
    and old: "\<forall>r < GRID_SIZE. \<forall>c < GRID_SIZE.
                (\<forall>j < length rest. cellOf d r0 c0 (Suc i + j) \<noteq> (r, c)) \<longrightarrow> g' ! r ! c = g1 ! r ! c"
    by blast
  have here: "g' ! r ! c = [ch]"
  proof -
    have "\<forall>j < length rest. cellOf d r0 c0 (Suc i + j) \<noteq> (r, c)"
      using rc by (metis cellOf_inj add_Suc n_not_Suc_n add_eq_self_zero nat.simps(3) add_Suc_right add.commute)
    with old inb have "g' ! r ! c = g1 ! r ! c" by blast
    also have "\<dots> = [ch]" using Cons.prems(1) inb by (simp add: g1_def put_nth)
    finally show ?thesis .
  qed
  have a: "\<forall>j < length (ch # rest). g' ! fst (cellOf d r0 c0 (i + j)) ! snd (cellOf d r0 c0 (i + j)) = [(ch # rest) ! j]"
  proof (intro allI impI)
    fix j assume "j < length (ch # rest)"
    show "g' ! fst (cellOf d r0 c0 (i + j)) ! snd (cellOf d r0 c0 (i + j)) = [(ch # rest) ! j]"
    proof (cases j)
      case 0
      with here rc show ?thesis by simp
    next
      case (Suc k)
      with \<open>j < length (ch # rest)\<close> new show ?thesis by simp
    qed
  qed
  have b: "\<forall>r' < GRID_SIZE. \<forall>c' < GRID_SIZE.
             (\<forall>j < length (ch # rest). cellOf d r0 c0 (i + j) \<noteq> (r', c')) \<longrightarrow> g' ! r' ! c' = g ! r' ! c'"
  proof (intro allI impI)
    fix r' c' assume inb': "r' < GRID_SIZE" "c' < GRID_SIZE"
      and away: "\<forall>j < length (ch # rest). cellOf d r0 c0 (i + j) \<noteq> (r', c')"
    from away have "cellOf d r0 c0 i \<noteq> (r', c')" by force
    with rc have ne: "r' \<noteq> r \<or> c' \<noteq> c" by auto
    from away have "\<forall>j < length rest. cellOf d r0 c0 (Suc i + j) \<noteq> (r', c')" by force
    with old inb' have "g' ! r' ! c' = g1 ! r' ! c'" by blast
    also have "\<dots> = g ! r' ! c'" using Cons.prems(1) inb' ne by (auto simp: g1_def put_nth)
    finally show "g' ! r' ! c' = g ! r' ! c'" .
  qed
  show ?case using run wf' a b by (simp add: step)
qed


lemma placeWord_committed:
  assumes "wfGrid g" and "fitsInGrid (length w) r0 c0 d"
  shows "\<exists>g'. placeWord g w r0 c0 d = Inr g' \<and> committed g g' w r0 c0 d"
  using placeWordFrom_effect [of w r0 c0 d 0 g] fits_cellInGrid [OF assms(2)] assms(1)
  by (simp add: placeWord_def committed_def)

lemma addDirection_fold_dirs:
  "dirsAt (fold (addDirection d) ks m) k = (if k \<in> set ks then insert d (dirsAt m k) else dirsAt m k)"
proof (induction ks arbitrary: m)
  case Nil
  show ?case by simp
next
  case (Cons a ks)
  have one: "dirsAt (addDirection d a m) k' = (if k' = a then insert d (dirsAt m k') else dirsAt m k')"
    for k' by (simp add: addDirection_def dirsAt_def split: option.splits)
  show ?case by (auto simp: Cons.IH one)
qed

lemma getOccupied_fold_dirs:
  "dirsAt (fold (\<lambda>pw m. fold (addDirection (direction pw)) (wordCells pw) m) placed m) k
     = dirsAt m k \<union> {d. coveredBy placed d k}"
proof (induction placed arbitrary: m)
  case Nil
  show ?case by (simp add: coveredBy_def)
next
  case (Cons pw placed)
  show ?case
    by (auto simp: Cons.IH addDirection_fold_dirs coveredBy_def)
qed

lemma dirsAt_getOccupied: "d \<in> dirsAt (getOccupied placed) k \<longleftrightarrow> coveredBy placed d k"
proof -
  have "dirsAt Map.empty k = {}" by (simp add: dirsAt_def)
  then show ?thesis
    unfolding getOccupied_def getOccupied_fold_dirs by simp
qed

lemma wordCells_across:
  "direction pw = Across \<Longrightarrow> k \<in> set (wordCells pw) \<longleftrightarrow>
     fst k = row pw \<and> col pw \<le> snd k \<and> snd k < col pw + length (word pw)"
  by (cases k) (auto simp: wordCells_def cellOf_def image_iff intro: le_Suc_ex dest: le_Suc_ex)

lemma wordCells_down:
  "direction pw = Down \<Longrightarrow> k \<in> set (wordCells pw) \<longleftrightarrow>
     snd k = col pw \<and> row pw \<le> fst k \<and> fst k < row pw + length (word pw)"
  by (cases k, cases "direction pw") (auto simp: wordCells_def cellOf_def image_iff intro: le_Suc_ex dest: le_Suc_ex)

text \<open>What the legality rule says for an across word, in terms of cells.\<close>

lemma canPlaceSpec_across:
  assumes "canPlaceSpec g w r0 c0 Across placed (getOccupied placed)"
  shows "r0 < GRID_SIZE" and "c0 + length w \<le> GRID_SIZE"
    and "c0 > 0 \<Longrightarrow> g ! r0 ! (c0 - 1) = []"
    and "c0 + length w < GRID_SIZE \<Longrightarrow> g ! r0 ! (c0 + length w) = []"
    and "\<And>i. i < length w \<Longrightarrow> g ! r0 ! (c0 + i) \<noteq> [] \<Longrightarrow>
           g ! r0 ! (c0 + i) = [w ! i] \<and> \<not> coveredBy placed Across (r0, c0 + i)
           \<and> coveredBy placed Down (r0, c0 + i)"
    and "\<And>i. i < length w \<Longrightarrow> g ! r0 ! (c0 + i) = [] \<Longrightarrow>
           (r0 > 0 \<longrightarrow> g ! (r0 - 1) ! (c0 + i) = []) \<and> (r0 + 1 < GRID_SIZE \<longrightarrow> g ! (r0 + 1) ! (c0 + i) = [])"
proof -
  from assms have fits: "fitsInGrid (length w) r0 c0 Across"
    and bef: "cellFree g (int r0) (int c0 - 1)"
    and aft: "cellFree g (int r0) (int c0 + int (length w))"
    and ok: "\<And>i. i < length w \<Longrightarrow> letterOk g r0 c0 Across (getOccupied placed) i (w ! i)"
    by (simp_all add: canPlaceSpec_def)
  from fits show b: "r0 < GRID_SIZE" "c0 + length w \<le> GRID_SIZE" by (simp_all add: fitsInGrid_def)
  show "c0 > 0 \<Longrightarrow> g ! r0 ! (c0 - 1) = []"
    using bef b by (auto simp: cellFree_col_pred)
  show "c0 + length w < GRID_SIZE \<Longrightarrow> g ! r0 ! (c0 + length w) = []"
    using aft b by (auto simp: cellFree_col_add)
  show "g ! r0 ! (c0 + i) = [w ! i] \<and> \<not> coveredBy placed Across (r0, c0 + i)
           \<and> coveredBy placed Down (r0, c0 + i)"
    if "i < length w" "g ! r0 ! (c0 + i) \<noteq> []" for i
    using ok [OF that(1)] that(2)
    by (simp add: letterOk_def cellOf_def dirsAt_getOccupied otherDir_def)
  show "(r0 > 0 \<longrightarrow> g ! (r0 - 1) ! (c0 + i) = []) \<and> (r0 + 1 < GRID_SIZE \<longrightarrow> g ! (r0 + 1) ! (c0 + i) = [])"
    if "i < length w" "g ! r0 ! (c0 + i) = []" for i
    using ok [OF that(1)] that(2) b that(1)
    by (auto simp: letterOk_def cellOf_def cellFree_def nat_add_distrib nat_diff_distrib)
qed

lemma canPlaceSpec_down:
  assumes "canPlaceSpec g w r0 c0 Down placed (getOccupied placed)"
  shows "c0 < GRID_SIZE" and "r0 + length w \<le> GRID_SIZE"
    and "r0 > 0 \<Longrightarrow> g ! (r0 - 1) ! c0 = []"
    and "r0 + length w < GRID_SIZE \<Longrightarrow> g ! (r0 + length w) ! c0 = []"
    and "\<And>i. i < length w \<Longrightarrow> g ! (r0 + i) ! c0 \<noteq> [] \<Longrightarrow>
           g ! (r0 + i) ! c0 = [w ! i] \<and> \<not> coveredBy placed Down (r0 + i, c0)
           \<and> coveredBy placed Across (r0 + i, c0)"
    and "\<And>i. i < length w \<Longrightarrow> g ! (r0 + i) ! c0 = [] \<Longrightarrow>
           (c0 > 0 \<longrightarrow> g ! (r0 + i) ! (c0 - 1) = []) \<and> (c0 + 1 < GRID_SIZE \<longrightarrow> g ! (r0 + i) ! (c0 + 1) = [])"
proof -
  from assms have fits: "fitsInGrid (length w) r0 c0 Down"
    and bef: "cellFree g (int r0 - 1) (int c0)"
    and aft: "cellFree g (int r0 + int (length w)) (int c0)"
    and ok: "\<And>i. i < length w \<Longrightarrow> letterOk g r0 c0 Down (getOccupied placed) i (w ! i)"
    by (simp_all add: canPlaceSpec_def)
  from fits show b: "c0 < GRID_SIZE" "r0 + length w \<le> GRID_SIZE" by (simp_all add: fitsInGrid_def)
  show "r0 > 0 \<Longrightarrow> g ! (r0 - 1) ! c0 = []"
    using bef b by (auto simp: cellFree_row_pred)
  show "r0 + length w < GRID_SIZE \<Longrightarrow> g ! (r0 + length w) ! c0 = []"
    using aft b by (auto simp: cellFree_row_add)
  show "g ! (r0 + i) ! c0 = [w ! i] \<and> \<not> coveredBy placed Down (r0 + i, c0)
           \<and> coveredBy placed Across (r0 + i, c0)"
    if "i < length w" "g ! (r0 + i) ! c0 \<noteq> []" for i
    using ok [OF that(1)] that(2)
    by (simp add: letterOk_def cellOf_def dirsAt_getOccupied otherDir_def)
  show "(c0 > 0 \<longrightarrow> g ! (r0 + i) ! (c0 - 1) = []) \<and> (c0 + 1 < GRID_SIZE \<longrightarrow> g ! (r0 + i) ! (c0 + 1) = [])"
    if "i < length w" "g ! (r0 + i) ! c0 = []" for i
    using ok [OF that(1)] that(2) b that(1)
    by (auto simp: letterOk_def cellOf_def cellFree_def nat_add_distrib nat_diff_distrib)
qed

lemma committed_across:
  assumes "committed g g' w r0 c0 Across"
  shows "wfGrid g'"
    and "\<And>i. i < length w \<Longrightarrow> g' ! r0 ! (c0 + i) = [w ! i]"
    and "\<And>r c. r < GRID_SIZE \<Longrightarrow> c < GRID_SIZE \<Longrightarrow> \<not> (r = r0 \<and> c0 \<le> c \<and> c < c0 + length w)
           \<Longrightarrow> g' ! r ! c = g ! r ! c"
  using assms by (auto simp: committed_def cellOf_def)

lemma committed_down:
  assumes "committed g g' w r0 c0 Down"
  shows "wfGrid g'"
    and "\<And>i. i < length w \<Longrightarrow> g' ! (r0 + i) ! c0 = [w ! i]"
    and "\<And>r c. r < GRID_SIZE \<Longrightarrow> c < GRID_SIZE \<Longrightarrow> \<not> (c = c0 \<and> r0 \<le> r \<and> r < r0 + length w)
           \<Longrightarrow> g' ! r ! c = g ! r ! c"
  using assms by (auto simp: committed_def cellOf_def)


lemma newWord_cells:
  assumes "word pw = w" "row pw = r0" "col pw = c0" "direction pw = d"
  shows "k \<in> set (wordCells pw) \<longleftrightarrow> (\<exists>i < length w. cellOf d r0 c0 i = k)"
  using assms by (auto simp: wordCells_def)

lemma coveredBy_append:
  "coveredBy (placed @ [pw]) d k \<longleftrightarrow>
     coveredBy placed d k \<or> (direction pw = d \<and> k \<in> set (wordCells pw))"
  by (auto simp: coveredBy_def)

lemma coversBoth_append:
  "coversBoth (placed @ [pw]) d k k' \<longleftrightarrow>
     coversBoth placed d k k'
     \<or> (direction pw = d \<and> k \<in> set (wordCells pw) \<and> k' \<in> set (wordCells pw))"
  by (auto simp: coversBoth_def)

lemma placedCell_in_grid:
  assumes "allFit placed" and "pw \<in> set placed" and "(r, c) \<in> set (wordCells pw)"
  shows "r < GRID_SIZE \<and> c < GRID_SIZE"
proof -
  from assms(3) obtain i where i: "i < length (word pw)"
    and k: "cellOf (direction pw) (row pw) (col pw) i = (r, c)"
    by (auto simp: wordCells_def)
  from assms(1,2) have "fitsInGrid (length (word pw)) (row pw) (col pw) (direction pw)"
    by (simp add: allFit_def)
  from fits_cellInGrid [OF this i] k show ?thesis by (simp add: cellInGrid_def)
qed

lemma placedCell_letter:
  assumes "lettersOnGrid g placed" and "pw \<in> set placed" and "(r, c) \<in> set (wordCells pw)"
  shows "g ! r ! c \<noteq> []"
proof -
  from assms(3) obtain i where i: "i < length (word pw)"
    and k: "cellOf (direction pw) (row pw) (col pw) i = (r, c)"
    by (auto simp: wordCells_def)
  from assms(1,2) i have
    "g ! fst (cellOf (direction pw) (row pw) (col pw) i) ! snd (cellOf (direction pw) (row pw) (col pw) i)
       = [word pw ! i]"
    by (simp add: lettersOnGrid_def)
  with k show ?thesis by simp
qed

text \<open>The facts about a legal placement and the grid it leaves, for either direction.\<close>

lemma legal_taken:
  assumes "canPlaceSpec g w r0 c0 d placed (getOccupied placed)"
    and "i < length w" and "cellOf d r0 c0 i = (r, c)" and "g ! r ! c \<noteq> []"
  shows "g ! r ! c = [w ! i] \<and> \<not> coveredBy placed d (r, c) \<and> coveredBy placed (otherDir d) (r, c)"
proof -
  from assms(1,2) have "letterOk g r0 c0 d (getOccupied placed) i (w ! i)"
    by (simp add: canPlaceSpec_def)
  with assms(3,4) show ?thesis
    by (simp add: letterOk_def dirsAt_getOccupied)
qed

lemma legal_keeps_letters:
  assumes "canPlaceSpec g w r0 c0 d placed (getOccupied placed)" and "committed g g' w r0 c0 d"
    and "r < GRID_SIZE" and "c < GRID_SIZE" and "g ! r ! c \<noteq> []"
  shows "g' ! r ! c = g ! r ! c"
proof (cases "\<exists>i < length w. cellOf d r0 c0 i = (r, c)")
  case True
  then obtain i where i: "i < length w" "cellOf d r0 c0 i = (r, c)" by blast
  from legal_taken [OF assms(1) i assms(5)] have "g ! r ! c = [w ! i]" by simp
  moreover from assms(2) i have "g' ! r ! c = [w ! i]" by (auto simp: committed_def)
  ultimately show ?thesis by simp
next
  case False
  with assms(2,3,4) show ?thesis by (simp add: committed_def)
qed

lemma legal_new_letters:
  assumes "committed g g' w r0 c0 d" and "r < GRID_SIZE" and "c < GRID_SIZE" and "g' ! r ! c \<noteq> []"
  shows "g ! r ! c \<noteq> [] \<or> (\<exists>i < length w. cellOf d r0 c0 i = (r, c))"
proof (rule ccontr)
  assume "\<not> (g ! r ! c \<noteq> [] \<or> (\<exists>i < length w. cellOf d r0 c0 i = (r, c)))"
  then have e: "g ! r ! c = []" and away: "\<forall>j < length w. cellOf d r0 c0 j \<noteq> (r, c)" by auto
  from assms(1,2,3) away have "g' ! r ! c = g ! r ! c" by (simp add: committed_def)
  with e assms(4) show False by simp
qed

lemma place_allFit:
  assumes "allFit placed" and "canPlaceSpec g w r0 c0 d placed occ"
    and "word pw = w" "row pw = r0" "col pw = c0" "direction pw = d"
  shows "allFit (placed @ [pw])"
  using assms by (auto simp: allFit_def canPlaceSpec_def)

lemma place_lettersOnGrid:
  assumes "allFit placed" and "lettersOnGrid g placed"
    and "canPlaceSpec g w r0 c0 d placed (getOccupied placed)" and "committed g g' w r0 c0 d"
    and "word pw = w" "row pw = r0" "col pw = c0" "direction pw = d"
  shows "lettersOnGrid g' (placed @ [pw])"
  unfolding lettersOnGrid_def
proof (intro ballI allI impI)
  fix q i assume q: "q \<in> set (placed @ [pw])" and i: "i < length (word q)"
  let ?k = "cellOf (direction q) (row q) (col q) i"
  show "g' ! fst ?k ! snd ?k = [word q ! i]"
  proof (cases "q \<in> set placed")
    case True
    with assms(2) i have old: "g ! fst ?k ! snd ?k = [word q ! i]" by (simp add: lettersOnGrid_def)
    have "(fst ?k, snd ?k) \<in> set (wordCells q)" using i by (simp add: wordCells_def)
    from placedCell_in_grid [OF assms(1) True this]
    have "fst ?k < GRID_SIZE" "snd ?k < GRID_SIZE" by simp_all
    from legal_keeps_letters [OF assms(3,4) this] old show ?thesis by simp
  next
    case False
    with q have "q = pw" by simp
    with assms(4-8) i show ?thesis by (simp add: committed_def)
  qed
qed

lemma place_lettersCovered:
  assumes "lettersCovered g placed" and "committed g g' w r0 c0 d"
    and "word pw = w" "row pw = r0" "col pw = c0" "direction pw = d"
  shows "lettersCovered g' (placed @ [pw])"
  unfolding lettersCovered_def
proof (intro allI impI)
  fix r c assume rc: "r < GRID_SIZE" "c < GRID_SIZE" and ne: "g' ! r ! c \<noteq> []"
  from legal_new_letters [OF assms(2) rc ne]
  show "\<exists>d'. coveredBy (placed @ [pw]) d' (r, c)"
  proof
    assume "g ! r ! c \<noteq> []"
    with assms(1) rc obtain d' where "coveredBy placed d' (r, c)"
      by (auto simp: lettersCovered_def)
    then show ?thesis by (auto simp: coveredBy_append)
  next
    assume "\<exists>i < length w. cellOf d r0 c0 i = (r, c)"
    then have "(r, c) \<in> set (wordCells pw)"
      using newWord_cells [OF assms(3-6)] by simp
    with assms(6) show ?thesis by (auto simp: coveredBy_append)
  qed
qed

lemma coveredBy_filter:
  "coveredBy placed d k \<longleftrightarrow> filter (\<lambda>pw. direction pw = d \<and> k \<in> set (wordCells pw)) placed \<noteq> []"
  by (auto simp: coveredBy_def filter_empty_conv)

lemma place_noParallelOverlap:
  assumes "lettersOnGrid g placed" and "noParallelOverlap placed"
    and "canPlaceSpec g w r0 c0 d placed (getOccupied placed)"
    and "word pw = w" "row pw = r0" "col pw = c0" "direction pw = d"
  shows "noParallelOverlap (placed @ [pw])"
  unfolding noParallelOverlap_def
proof (intro allI)
  fix d' k
  let ?P = "\<lambda>q. direction q = d' \<and> k \<in> set (wordCells q)"
  show "length (filter ?P (placed @ [pw])) \<le> 1"
  proof (cases "?P pw")
    case False
    from assms(2) have "length (filter ?P placed) \<le> 1"
      unfolding noParallelOverlap_def by blast
    with False show ?thesis by auto
  next
    case True
    then have d': "d' = d" and kp: "k \<in> set (wordCells pw)" using assms(7) by auto
    obtain r c where k: "k = (r, c)" by (cases k)
    from kp k obtain i where i: "i < length w" "cellOf d r0 c0 i = (r, c)"
      using newWord_cells [OF assms(4-7)] by auto
    have "\<not> coveredBy placed d (r, c)"
    proof
      assume "coveredBy placed d (r, c)"
      then obtain q where q: "q \<in> set placed" "(r, c) \<in> set (wordCells q)"
        by (auto simp: coveredBy_def)
      from placedCell_letter [OF assms(1) q] have "g ! r ! c \<noteq> []" .
      from legal_taken [OF assms(3) i this] \<open>coveredBy placed d (r, c)\<close> show False by simp
    qed
    then have "filter ?P placed = []" by (simp add: coveredBy_filter d' k)
    then show ?thesis by simp
  qed
qed

lemma filter_two:
  assumes "i < j" and "j < length xs" and "P (xs ! i)" and "P (xs ! j)"
  shows "2 \<le> length (filter P xs)"
proof -
  have xs: "xs = take j xs @ xs ! j # drop (Suc j) xs"
    using assms(2) by (rule id_take_nth_drop)
  have "xs ! i \<in> set (take j xs)"
    using assms(1,2) by (auto simp: in_set_conv_nth intro!: exI [of _ i])
  with assms(3) have "filter P (take j xs) \<noteq> []" by (auto simp: filter_empty_conv)
  then have "1 \<le> length (filter P (take j xs))" by (cases "filter P (take j xs)") simp_all
  moreover have "length (filter P xs) = length (filter P (take j xs))
      + length (filter P (xs ! j # drop (Suc j) xs))"
    by (subst xs) simp
  ultimately show ?thesis using assms(4) by simp
qed

lemma noParallelOverlap_nth:
  assumes "noParallelOverlap ws" and "i < length ws" and "j < length ws" and "i \<noteq> j"
    and "direction (ws ! i) = direction (ws ! j)"
  shows "set (wordCells (ws ! i)) \<inter> set (wordCells (ws ! j)) = {}"
proof (rule ccontr)
  assume "set (wordCells (ws ! i)) \<inter> set (wordCells (ws ! j)) \<noteq> {}"
  then obtain k where k: "k \<in> set (wordCells (ws ! i))" "k \<in> set (wordCells (ws ! j))" by auto
  let ?P = "\<lambda>pw. direction pw = direction (ws ! i) \<and> k \<in> set (wordCells pw)"
  have "2 \<le> length (filter ?P ws)"
  proof (cases "i < j")
    case True
    with assms k show ?thesis by (intro filter_two [of i j]) simp_all
  next
    case False
    with assms(4) have "j < i" by simp
    with assms k show ?thesis by (intro filter_two [of j i]) simp_all
  qed
  moreover from assms(1) have "length (filter ?P ws) \<le> 1"
    unfolding noParallelOverlap_def by blast
  ultimately show False by simp
qed

lemma place_runs_across:
  assumes runs: "runsAreWords g placed"
    and spec: "canPlaceSpec g w r0 c0 Across placed (getOccupied placed)"
    and com: "committed g g' w r0 c0 Across"
    and pw: "word pw = w" "row pw = r0" "col pw = c0" "direction pw = Across"
  shows "runsAreWords g' (placed @ [pw])"
  unfolding runsAreWords_def
proof (intro allI impI)
  fix r c assume rc: "r < GRID_SIZE" "c < GRID_SIZE" and ne: "g' ! r ! c \<noteq> []"
  note A = canPlaceSpec_across [OF spec]
  note B = committed_across [OF com]
  have inK: "(r', c') \<in> set (wordCells pw) \<longleftrightarrow> r' = r0 \<and> c0 \<le> c' \<and> c' < c0 + length w" for r' c'
    using wordCells_across [OF pw(4), of "(r', c')"] pw by simp
  have old: "coversBoth (placed @ [pw]) d k k'" if "coversBoth placed d k k'" for d k k'
    using that by (simp add: coversBoth_append)
  have same: "g' ! r' ! c' = g ! r' ! c'"
    if "r' < GRID_SIZE" "c' < GRID_SIZE" "(r', c') \<notin> set (wordCells pw)" for r' c'
    using B(3) [of r' c'] that by (simp add: inK)
  have taken: "g ! r0 ! c' \<noteq> []"
    if "(r0, c') \<in> set (wordCells pw)" "r' < GRID_SIZE" "g ! r' ! c' \<noteq> []" "r' = r0 + 1 \<or> r' + 1 = r0"
    for r' c'
  proof (rule ccontr)
    assume "\<not> g ! r0 ! c' \<noteq> []"
    then have e: "g ! r0 ! c' = []" by simp
    from that(1) obtain i where i: "i < length w" "c' = c0 + i"
      using inK [of r0 c'] by (auto dest: le_Suc_ex)
    from A(6) [OF i(1)] e i have "(r0 > 0 \<longrightarrow> g ! (r0 - 1) ! c' = []) \<and> (r0 + 1 < GRID_SIZE \<longrightarrow> g ! (r0 + 1) ! c' = [])"
      by simp
    with that(2,3,4) show False by auto
  qed
  have horiz: "coversBoth (placed @ [pw]) Across (r, c) (r, c + 1)"
    if c1: "c + 1 < GRID_SIZE" and ne1: "g' ! r ! (c + 1) \<noteq> []"
  proof -
    consider (both) "(r, c) \<in> set (wordCells pw)" "(r, c + 1) \<in> set (wordCells pw)"
      | (last) "(r, c) \<in> set (wordCells pw)" "(r, c + 1) \<notin> set (wordCells pw)"
      | (first) "(r, c) \<notin> set (wordCells pw)" "(r, c + 1) \<in> set (wordCells pw)"
      | (none) "(r, c) \<notin> set (wordCells pw)" "(r, c + 1) \<notin> set (wordCells pw)"
      by blast
    then show ?thesis
    proof cases
      case both
      with pw(4) show ?thesis by (auto simp: coversBoth_append)
    next
      case last
      then have "r = r0" "c + 1 = c0 + length w" by (auto simp: inK)
      with A(4) c1 have "g ! r ! (c + 1) = []" by simp
      with same [OF rc(1) c1 last(2)] ne1 show ?thesis by simp
    next
      case first
      then have "r = r0" "c0 > 0" "c = c0 - 1" by (auto simp: inK)
      with A(3) have "g ! r ! c = []" by simp
      with same [OF rc first(1)] ne show ?thesis by simp
    next
      case none
      with same [OF rc] same [OF rc(1) c1] ne ne1
      have "g ! r ! c \<noteq> []" "g ! r ! (c + 1) \<noteq> []" by simp_all
      with runs rc c1 have "coversBoth placed Across (r, c) (r, c + 1)"
        by (simp add: runsAreWords_def)
      then show ?thesis by (rule old)
    qed
  qed
  have vert: "coversBoth (placed @ [pw]) Down (r, c) (r + 1, c)"
    if r1: "r + 1 < GRID_SIZE" and ne1: "g' ! (r + 1) ! c \<noteq> []"
  proof -
    have g0: "g ! r ! c \<noteq> []"
    proof (cases "(r, c) \<in> set (wordCells pw)")
      case True
      then have r0: "r = r0" by (simp add: inK)
      with True have "(r + 1, c) \<notin> set (wordCells pw)" by (simp add: inK)
      with same [OF r1 rc(2)] ne1 have "g ! (r + 1) ! c \<noteq> []" by simp
      from taken [OF _ r1 this] True r0 show ?thesis by simp
    next
      case False
      with same [OF rc] ne show ?thesis by simp
    qed
    have g1: "g ! (r + 1) ! c \<noteq> []"
    proof (cases "(r + 1, c) \<in> set (wordCells pw)")
      case True
      then have r0: "r + 1 = r0" by (simp add: inK)
      from taken [OF _ rc(1) g0] True r0 show ?thesis by auto
    next
      case False
      with same [OF r1 rc(2)] ne1 show ?thesis by simp
    qed
    from runs rc r1 g0 g1 have "coversBoth placed Down (r, c) (r + 1, c)"
      by (simp add: runsAreWords_def)
    then show ?thesis by (rule old)
  qed
  from horiz vert
  show "(c + 1 < GRID_SIZE \<longrightarrow> g' ! r ! (c + 1) \<noteq> [] \<longrightarrow> coversBoth (placed @ [pw]) Across (r, c) (r, c + 1))
      \<and> (r + 1 < GRID_SIZE \<longrightarrow> g' ! (r + 1) ! c \<noteq> [] \<longrightarrow> coversBoth (placed @ [pw]) Down (r, c) (r + 1, c))"
    by blast
qed


lemma place_runs_down:
  assumes runs: "runsAreWords g placed"
    and spec: "canPlaceSpec g w r0 c0 Down placed (getOccupied placed)"
    and com: "committed g g' w r0 c0 Down"
    and pw: "word pw = w" "row pw = r0" "col pw = c0" "direction pw = Down"
  shows "runsAreWords g' (placed @ [pw])"
  unfolding runsAreWords_def
proof (intro allI impI)
  fix r c assume rc: "r < GRID_SIZE" "c < GRID_SIZE" and ne: "g' ! r ! c \<noteq> []"
  note A = canPlaceSpec_down [OF spec]
  note B = committed_down [OF com]
  have inK: "(r', c') \<in> set (wordCells pw) \<longleftrightarrow> c' = c0 \<and> r0 \<le> r' \<and> r' < r0 + length w" for r' c'
    using wordCells_down [OF pw(4), of "(r', c')"] pw by simp
  have old: "coversBoth (placed @ [pw]) d k k'" if "coversBoth placed d k k'" for d k k'
    using that by (simp add: coversBoth_append)
  have same: "g' ! r' ! c' = g ! r' ! c'"
    if "r' < GRID_SIZE" "c' < GRID_SIZE" "(r', c') \<notin> set (wordCells pw)" for r' c'
    using B(3) [of r' c'] that by (simp add: inK)
  have taken: "g ! r' ! c0 \<noteq> []"
    if "(r', c0) \<in> set (wordCells pw)" "c' < GRID_SIZE" "g ! r' ! c' \<noteq> []" "c' = c0 + 1 \<or> c' + 1 = c0"
    for r' c'
  proof (rule ccontr)
    assume "\<not> g ! r' ! c0 \<noteq> []"
    then have e: "g ! r' ! c0 = []" by simp
    from that(1) obtain i where i: "i < length w" "r' = r0 + i"
      using inK [of r' c0] by (auto dest: le_Suc_ex)
    from A(6) [OF i(1)] e i have "(c0 > 0 \<longrightarrow> g ! r' ! (c0 - 1) = []) \<and> (c0 + 1 < GRID_SIZE \<longrightarrow> g ! r' ! (c0 + 1) = [])"
      by simp
    with that(2,3,4) show False by auto
  qed
  have vert: "coversBoth (placed @ [pw]) Down (r, c) (r + 1, c)"
    if r1: "r + 1 < GRID_SIZE" and ne1: "g' ! (r + 1) ! c \<noteq> []"
  proof -
    consider (both) "(r, c) \<in> set (wordCells pw)" "(r + 1, c) \<in> set (wordCells pw)"
      | (last) "(r, c) \<in> set (wordCells pw)" "(r + 1, c) \<notin> set (wordCells pw)"
      | (first) "(r, c) \<notin> set (wordCells pw)" "(r + 1, c) \<in> set (wordCells pw)"
      | (none) "(r, c) \<notin> set (wordCells pw)" "(r + 1, c) \<notin> set (wordCells pw)"
      by blast
    then show ?thesis
    proof cases
      case both
      with pw(4) show ?thesis by (auto simp: coversBoth_append)
    next
      case last
      then have "c = c0" "r + 1 = r0 + length w" by (auto simp: inK)
      with A(4) r1 have "g ! (r + 1) ! c = []" by simp
      with same [OF r1 rc(2) last(2)] ne1 show ?thesis by simp
    next
      case first
      then have "c = c0" "r0 > 0" "r = r0 - 1" by (auto simp: inK)
      with A(3) have "g ! r ! c = []" by simp
      with same [OF rc first(1)] ne show ?thesis by simp
    next
      case none
      with same [OF rc] same [OF r1 rc(2)] ne ne1
      have "g ! r ! c \<noteq> []" "g ! (r + 1) ! c \<noteq> []" by simp_all
      with runs rc r1 have "coversBoth placed Down (r, c) (r + 1, c)"
        by (simp add: runsAreWords_def)
      then show ?thesis by (rule old)
    qed
  qed
  have horiz: "coversBoth (placed @ [pw]) Across (r, c) (r, c + 1)"
    if c1: "c + 1 < GRID_SIZE" and ne1: "g' ! r ! (c + 1) \<noteq> []"
  proof -
    have g0: "g ! r ! c \<noteq> []"
    proof (cases "(r, c) \<in> set (wordCells pw)")
      case True
      then have c0: "c = c0" by (simp add: inK)
      with True have "(r, c + 1) \<notin> set (wordCells pw)" by (simp add: inK)
      with same [OF rc(1) c1] ne1 have "g ! r ! (c + 1) \<noteq> []" by simp
      from taken [OF _ c1 this] True c0 show ?thesis by simp
    next
      case False
      with same [OF rc] ne show ?thesis by simp
    qed
    have g1: "g ! r ! (c + 1) \<noteq> []"
    proof (cases "(r, c + 1) \<in> set (wordCells pw)")
      case True
      then have c0: "c + 1 = c0" by (simp add: inK)
      from taken [OF _ rc(2) g0] True c0 show ?thesis by auto
    next
      case False
      with same [OF rc(1) c1] ne1 show ?thesis by simp
    qed
    from runs rc c1 g0 g1 have "coversBoth placed Across (r, c) (r, c + 1)"
      by (simp add: runsAreWords_def)
    then show ?thesis by (rule old)
  qed
  from horiz vert
  show "(c + 1 < GRID_SIZE \<longrightarrow> g' ! r ! (c + 1) \<noteq> [] \<longrightarrow> coversBoth (placed @ [pw]) Across (r, c) (r, c + 1))
      \<and> (r + 1 < GRID_SIZE \<longrightarrow> g' ! (r + 1) ! c \<noteq> [] \<longrightarrow> coversBoth (placed @ [pw]) Down (r, c) (r + 1, c))"
    by blast
qed

lemma layoutOk_place:
  assumes inv: "layoutOk g placed"
    and spec: "canPlaceSpec g w r0 c0 d placed (getOccupied placed)"
    and com: "committed g g' w r0 c0 d"
    and pw: "word pw = w" "row pw = r0" "col pw = c0" "direction pw = d"
    and start: "r0 < GRID_SIZE" "c0 < GRID_SIZE"
  shows "layoutOk g' (placed @ [pw])"
proof -
  from inv have wf: "wfGrid g" and fit: "allFit placed" and lt: "lettersOnGrid g placed"
    and st: "startsInGrid placed"
    and cov: "lettersCovered g placed" and npo: "noParallelOverlap placed"
    and runs: "runsAreWords g placed"
    by (simp_all add: layoutOk_def)
  have "wfGrid g'" using com by (simp add: committed_def)
  moreover have "allFit (placed @ [pw])" by (rule place_allFit [OF fit spec pw])
  moreover have "startsInGrid (placed @ [pw])" using st start pw by (simp add: startsInGrid_def)
  moreover have "lettersOnGrid g' (placed @ [pw])" by (rule place_lettersOnGrid [OF fit lt spec com pw])
  moreover have "lettersCovered g' (placed @ [pw])" by (rule place_lettersCovered [OF cov com pw])
  moreover have "noParallelOverlap (placed @ [pw])" by (rule place_noParallelOverlap [OF lt npo spec pw])
  moreover have "runsAreWords g' (placed @ [pw])"
  proof (cases d)
    case Across
    with spec com pw show ?thesis by (intro place_runs_across [OF runs]) simp_all
  next
    case Down
    with spec com pw show ?thesis by (intro place_runs_down [OF runs]) simp_all
  qed
  ultimately show ?thesis by (simp add: layoutOk_def)
qed

lemma createEmptyGrid_nth:
  "r < GRID_SIZE \<Longrightarrow> c < GRID_SIZE \<Longrightarrow> createEmptyGrid ! r ! c = []"
  by (simp add: createEmptyGrid_def)

lemma layoutOk_empty: "layoutOk createEmptyGrid []"
  unfolding layoutOk_def
  by (intro conjI wfGrid_createEmptyGrid)
    (simp_all add: allFit_def startsInGrid_def lettersOnGrid_def lettersCovered_def
      noParallelOverlap_def runsAreWords_def createEmptyGrid_nth)

section \<open>The placement search and the attempts\<close>

lemma scanLoop_pure:
  assumes "\<forall>p \<in> set ps. case p of (d, r, c) \<Rightarrow>
             canPlaceWord g w r c d placed occupied = Inr (legal p)
             \<and> (legal p \<longrightarrow> placementScore g w r c d = Inr (sc p))"
  shows "scanLoop g w placed occupied (map_option (toPlacement sc) best) ps
           = Inr (map_option (toPlacement sc) (pureScan legal sc best ps))"
  using assms
proof (induction ps arbitrary: best)
  case Nil
  show ?case by simp
next
  case (Cons p ps)
  obtain d r c where p: "p = (d, r, c)" by (cases p)
  from Cons.prems p have can: "canPlaceWord g w r c d placed occupied = Inr (legal p)"
    and sc: "legal p \<Longrightarrow> placementScore g w r c d = Inr (sc p)" by auto
  from Cons.prems have rest: "\<forall>p \<in> set ps. case p of (d, r, c) \<Rightarrow>
             canPlaceWord g w r c d placed occupied = Inr (legal p)
             \<and> (legal p \<longrightarrow> placementScore g w r c d = Inr (sc p))" by simp
  let ?best' = "if legal p \<and> (case best of None \<Rightarrow> True | Some b \<Rightarrow> sc p > sc b) then Some p else best"
  have "considerPosition g w placed occupied (map_option (toPlacement sc) best) p
          = Inr (map_option (toPlacement sc) ?best')"
  proof (cases "legal p")
    case False
    with can show ?thesis by (simp add: considerPosition_def p)
  next
    case True
    with can sc show ?thesis
      by (cases best) (auto simp: considerPosition_def p toPlacement_def split: prod.splits)
  qed
  with Cons.IH [OF rest, of ?best'] show ?case by simp
qed

lemma Max_cons_small:
  assumes "q \<in> set L" and "sc p < sc q"
  shows "Max (sc ` set (p # L)) = Max (sc ` set L)" and "sc p < Max (sc ` set L)"
proof -
  have "sc q \<le> Max (sc ` set L)" using assms(1) by simp
  with assms(2) show lt: "sc p < Max (sc ` set L)" by simp
  have "sc ` set L \<noteq> {}" using assms(1) by auto
  then have "Max (sc ` set (p # L)) = max (sc p) (Max (sc ` set L))"
    by (simp add: Max_insert)
  with lt show "Max (sc ` set (p # L)) = Max (sc ` set L)" by simp
qed

lemma Max_cons_big:
  assumes "\<forall>q \<in> set L. sc q \<le> sc p"
  shows "Max (sc ` set (p # L)) = sc p"
  using assms by (intro Max_eqI) auto

lemma firstBest_Cons_illegal: "\<not> legal p \<Longrightarrow> firstBest legal sc (p # ps) = firstBest legal sc ps"
  by (simp add: firstBest_def)

lemma firstBest_Cons_skip:
  assumes "legal p" and "q \<in> set (filter legal ps)" and "sc p < sc q"
  shows "firstBest legal sc (p # ps) = firstBest legal sc ps"
proof -
  let ?L = "filter legal ps"
  from assms(2) have ne: "?L \<noteq> []" by (metis empty_iff empty_set)
  have fl: "filter legal (p # ps) = p # ?L" using assms(1) by simp
  note M = Max_cons_small [OF assms(2,3)]
  show ?thesis
    unfolding firstBest_def Let_def fl M(1) using ne M(2) by simp
qed

lemma firstBest_Cons_take:
  assumes "legal p" and "\<forall>q \<in> set (filter legal ps). sc q \<le> sc p"
  shows "firstBest legal sc (p # ps) = Some p"
proof -
  have fl: "filter legal (p # ps) = p # filter legal ps" using assms(1) by simp
  show ?thesis
    unfolding firstBest_def Let_def fl Max_cons_big [OF assms(2)] by simp
qed

lemma pureScan_Some:
  "pureScan legal sc (Some b) ps =
     (if \<exists>p \<in> set (filter legal ps). sc p > sc b then firstBest legal sc ps else Some b)"
proof (induction ps arbitrary: b)
  case Nil
  show ?case by simp
next
  case (Cons p ps)
  let ?L = "filter legal ps"
  show ?case
  proof (cases "legal p")
    case False
    with Cons.IH [of b] show ?thesis by (auto simp: firstBest_Cons_illegal)
  next
    case lp: True
    show ?thesis
    proof (cases "sc p > sc b")
      case gt: True
      then have ex: "\<exists>q \<in> set (filter legal (p # ps)). sc q > sc b" using lp by auto
      have "pureScan legal sc (Some p) ps = firstBest legal sc (p # ps)"
      proof (cases "\<exists>q \<in> set ?L. sc q > sc p")
        case True
        then obtain q where q: "q \<in> set ?L" "sc p < sc q" by blast
        from firstBest_Cons_skip [OF lp q] Cons.IH [of p] True show ?thesis by auto
      next
        case False
        then have "\<forall>q \<in> set ?L. sc q \<le> sc p" by (auto simp: not_less)
        from firstBest_Cons_take [OF lp this] Cons.IH [of p] False show ?thesis by auto
      qed
      with lp gt ex show ?thesis by auto
    next
      case le: False
      have exeq: "(\<exists>q \<in> set (filter legal (p # ps)). sc q > sc b) \<longleftrightarrow> (\<exists>q \<in> set ?L. sc q > sc b)"
        using le lp by auto
      show ?thesis
      proof (cases "\<exists>q \<in> set ?L. sc q > sc b")
        case False
        with Cons.IH [of b] exeq le lp show ?thesis by auto
      next
        case ex: True
        then obtain q where q: "q \<in> set ?L" "sc q > sc b" by blast
        with le have "sc p < sc q" by simp
        from firstBest_Cons_skip [OF lp q(1) this] Cons.IH [of b] exeq ex le lp
        show ?thesis by auto
      qed
    qed
  qed
qed

lemma pureScan_None: "pureScan legal sc None ps = firstBest legal sc ps"
proof (induction ps)
  case Nil
  show ?case by (simp add: firstBest_def)
next
  case (Cons p ps)
  let ?L = "filter legal ps"
  show ?case
  proof (cases "legal p")
    case False
    with Cons.IH show ?thesis by (simp add: firstBest_Cons_illegal)
  next
    case lp: True
    show ?thesis
    proof (cases "\<exists>q \<in> set ?L. sc q > sc p")
      case True
      then obtain q where q: "q \<in> set ?L" "sc p < sc q" by blast
      from firstBest_Cons_skip [OF lp q] True lp show ?thesis by (auto simp: pureScan_Some)
    next
      case False
      then have "\<forall>q \<in> set ?L. sc q \<le> sc p" by (auto simp: not_less)
      from firstBest_Cons_take [OF lp this] False lp show ?thesis by (auto simp: pureScan_Some)
    qed
  qed
qed

lemma scanPositions_set:
  "(d, r, c) \<in> set (scanPositions w) \<longleftrightarrow> fitsInGrid (length w) r c d"
proof (cases d)
  case Across
  have "(\<exists>r' \<in> {0..int GRID_SIZE - 1}. \<exists>c' \<in> {0..int GRID_SIZE - int (length w)}. r = nat r' \<and> c = nat c')
          \<longleftrightarrow> r < GRID_SIZE \<and> c + length w \<le> GRID_SIZE"
  proof
    assume "\<exists>r' \<in> {0..int GRID_SIZE - 1}. \<exists>c' \<in> {0..int GRID_SIZE - int (length w)}. r = nat r' \<and> c = nat c'"
    then show "r < GRID_SIZE \<and> c + length w \<le> GRID_SIZE" by auto
  next
    assume "r < GRID_SIZE \<and> c + length w \<le> GRID_SIZE"
    then have "int r \<in> {0..int GRID_SIZE - 1}" "int c \<in> {0..int GRID_SIZE - int (length w)}" by auto
    then show "\<exists>r' \<in> {0..int GRID_SIZE - 1}. \<exists>c' \<in> {0..int GRID_SIZE - int (length w)}. r = nat r' \<and> c = nat c'"
      by (metis nat_int)
  qed
  with Across show ?thesis
    by (auto simp: scanPositions_def fitsInGrid_def Let_def)
next
  case Down
  have "(\<exists>r' \<in> {0..int GRID_SIZE - int (length w)}. \<exists>c' \<in> {0..int GRID_SIZE - 1}. r = nat r' \<and> c = nat c')
          \<longleftrightarrow> c < GRID_SIZE \<and> r + length w \<le> GRID_SIZE"
  proof
    assume "\<exists>r' \<in> {0..int GRID_SIZE - int (length w)}. \<exists>c' \<in> {0..int GRID_SIZE - 1}. r = nat r' \<and> c = nat c'"
    then show "c < GRID_SIZE \<and> r + length w \<le> GRID_SIZE" by auto
  next
    assume "c < GRID_SIZE \<and> r + length w \<le> GRID_SIZE"
    then have "int r \<in> {0..int GRID_SIZE - int (length w)}" "int c \<in> {0..int GRID_SIZE - 1}" by auto
    then show "\<exists>r' \<in> {0..int GRID_SIZE - int (length w)}. \<exists>c' \<in> {0..int GRID_SIZE - 1}. r = nat r' \<and> c = nat c'"
      by (metis nat_int)
  qed
  with Down show ?thesis
    by (auto simp: scanPositions_def fitsInGrid_def Let_def)
qed

lemma sorted_wrt_concat_map:
  assumes "sorted_wrt Q xs"
    and "\<And>x. x \<in> set xs \<Longrightarrow> sorted_wrt P (f x)"
    and "\<And>x y a b. Q x y \<Longrightarrow> x \<in> set xs \<Longrightarrow> y \<in> set xs \<Longrightarrow> a \<in> set (f x) \<Longrightarrow> b \<in> set (f y)
           \<Longrightarrow> P a b"
  shows "sorted_wrt P (concat (map f xs))"
  using assms by (induction xs) (auto simp: sorted_wrt_append)

lemma sorted_wrt_upto: "sorted_wrt (<) [i..j]"
  using sorted_upto [of i j] distinct_upto [of i j] by (simp add: strict_sorted_iff)

lemma scanPositions_sorted: "sorted_wrt scanBefore (scanPositions w)"
  unfolding scanPositions_def
proof (rule sorted_wrt_concat_map [where Q = "\<lambda>d d'. d = Across \<and> d' = Down"])
  show "sorted_wrt (\<lambda>d d'. d = Across \<and> d' = Down) [Across, Down]" by simp
next
  fix d :: direction
  let ?rows = "[0 .. (if d = Across then int GRID_SIZE else int GRID_SIZE - int (length w)) - (if d = Across then 1 else 0)]"
  let ?cols = "[0 .. (if d = Across then int GRID_SIZE - int (length w) else int GRID_SIZE) - (if d = Across then 0 else 1)]"
  have "sorted_wrt scanBefore (concat (map (\<lambda>r. map (\<lambda>c. (d, nat r, nat c)) ?cols) ?rows))"
  proof (rule sorted_wrt_concat_map [where Q = "(<)"])
    show "sorted_wrt (<) ?rows" by (rule sorted_wrt_upto)
  next
    fix r assume "r \<in> set ?rows"
    then have r0: "0 \<le> r" by simp
    have "sorted_wrt (\<lambda>c c'. scanBefore (d, nat r, nat c) (d, nat r, nat c')) ?cols"
      by (rule sorted_wrt_mono_rel [OF _ sorted_wrt_upto]) (auto simp: scanBefore_def)
    then show "sorted_wrt scanBefore (map (\<lambda>c. (d, nat r, nat c)) ?cols)"
      by (simp add: sorted_wrt_map)
  next
    fix r r' :: int and a b
    assume "r < r'" "r \<in> set ?rows" "r' \<in> set ?rows"
      "a \<in> set (map (\<lambda>c. (d, nat r, nat c)) ?cols)" "b \<in> set (map (\<lambda>c. (d, nat r', nat c)) ?cols)"
    then show "scanBefore a b" by (auto simp: scanBefore_def)
  qed
  then show "sorted_wrt scanBefore
      (let isAcross = d = Across;
           maxR = if isAcross then int GRID_SIZE else int GRID_SIZE - int (length w);
           maxC = if isAcross then int GRID_SIZE - int (length w) else int GRID_SIZE
       in concat (map (\<lambda>r. map (\<lambda>c. (d, nat r, nat c)) [0..maxC - (if isAcross then 0 else 1)])
                    [0..maxR - (if isAcross then 1 else 0)]))"
    by (simp add: Let_def)
next
  fix x y :: direction and a b
  assume "x = Across \<and> y = Down" "x \<in> set [Across, Down]" "y \<in> set [Across, Down]"
    and "a \<in> set (let isAcross = x = Across;
           maxR = if isAcross then int GRID_SIZE else int GRID_SIZE - int (length w);
           maxC = if isAcross then int GRID_SIZE - int (length w) else int GRID_SIZE
       in concat (map (\<lambda>r. map (\<lambda>c. (x, nat r, nat c)) [0..maxC - (if isAcross then 0 else 1)])
                    [0..maxR - (if isAcross then 1 else 0)]))"
    and "b \<in> set (let isAcross = y = Across;
           maxR = if isAcross then int GRID_SIZE else int GRID_SIZE - int (length w);
           maxC = if isAcross then int GRID_SIZE - int (length w) else int GRID_SIZE
       in concat (map (\<lambda>r. map (\<lambda>c. (y, nat r, nat c)) [0..maxC - (if isAcross then 0 else 1)])
                    [0..maxR - (if isAcross then 1 else 0)]))"
  then show "scanBefore a b"
    by (auto simp: Let_def scanBefore_def)
qed


lemma findBestPlacement_firstBest:
  assumes "wfGrid g"
  shows "findBestPlacement g w placed occupied =
           Inr (map_option (toPlacement (scoreAt g w))
                  (firstBest (legalAt g w placed occupied) (scoreAt g w) (scanPositions w)))"
proof -
  have "\<forall>p \<in> set (scanPositions w). case p of (d, r, c) \<Rightarrow>
          canPlaceWord g w r c d placed occupied = Inr (legalAt g w placed occupied p)
          \<and> (legalAt g w placed occupied p \<longrightarrow> placementScore g w r c d = Inr (scoreAt g w p))"
  proof (intro ballI)
    fix p assume p: "p \<in> set (scanPositions w)"
    obtain d r c where drc: "p = (d, r, c)" by (cases p)
    with p have "fitsInGrid (length w) r c d" by (simp add: scanPositions_set)
    from canPlaceWord_fits [OF assms this] placementScore_legal [OF assms]
    show "case p of (d, r, c) \<Rightarrow>
          canPlaceWord g w r c d placed occupied = Inr (legalAt g w placed occupied p)
          \<and> (legalAt g w placed occupied p \<longrightarrow> placementScore g w r c d = Inr (scoreAt g w p))"
      by (simp add: drc legalAt_def scoreAt_def)
  qed
  from scanLoop_pure [OF this, of None] show ?thesis
    by (simp add: findBestPlacement_def pureScan_None)
qed

lemma firstBest_None: "firstBest legal sc ps = None \<longleftrightarrow> (\<forall>p \<in> set ps. \<not> legal p)"
proof -
  define L where "L = filter legal ps"
  have setL: "set L = {p \<in> set ps. legal p}" by (simp add: L_def)
  have fb: "firstBest legal sc ps = (if L = [] then None else find (\<lambda>p. sc p = Max (sc ` set L)) L)"
    by (simp add: firstBest_def L_def Let_def)
  show ?thesis
  proof (cases "L = []")
    case True
    with setL have "\<forall>p \<in> set ps. \<not> legal p" by auto
    with True fb show ?thesis by simp
  next
    case False
    then have "Max (sc ` set L) \<in> sc ` set L" by (intro Max_in) auto
    then obtain q where q: "q \<in> set L" "sc q = Max (sc ` set L)" by auto
    then have "find (\<lambda>p. sc p = Max (sc ` set L)) L \<noteq> None"
      by (auto simp: find_None_iff)
    moreover from q(1) setL have "\<exists>p \<in> set ps. legal p" by auto
    ultimately show ?thesis using False fb by auto
  qed
qed

lemma firstBest_Some:
  assumes "firstBest legal sc ps = Some b"
  shows "b \<in> set ps" and "legal b" and "\<forall>p \<in> set ps. legal p \<longrightarrow> sc p \<le> sc b"
proof -
  define L where "L = filter legal ps"
  have setL: "set L = {p \<in> set ps. legal p}" by (simp add: L_def)
  from assms have f: "find (\<lambda>p. sc p = Max (sc ` set L)) L = Some b"
    by (auto simp: firstBest_def Let_def L_def split: if_splits)
  then obtain i where "i < length L" "L ! i = b" and m: "sc b = Max (sc ` set L)"
    unfolding find_Some_iff by blast
  then have "b \<in> set L" by (metis nth_mem)
  with setL show "b \<in> set ps" "legal b" by auto
  show "\<forall>p \<in> set ps. legal p \<longrightarrow> sc p \<le> sc b"
  proof (intro ballI impI)
    fix p assume "p \<in> set ps" "legal p"
    with setL have "sc p \<in> sc ` set L" by auto
    then show "sc p \<le> sc b" unfolding m by (intro Max_ge) auto
  qed
qed

lemma firstBest_first:
  assumes "firstBest legal sc ps = Some b" and "sorted_wrt before ps"
    and "p \<in> set ps" and "legal p" and "sc p = sc b" and "p \<noteq> b"
  shows "before b p"
proof -
  define L where "L = filter legal ps"
  have setL: "set L = {p \<in> set ps. legal p}" by (simp add: L_def)
  let ?m = "Max (sc ` set L)"
  from assms(1) have f: "find (\<lambda>p. sc p = ?m) L = Some b"
    by (auto simp: firstBest_def Let_def L_def split: if_splits)
  then obtain i where i: "i < length L" "L ! i = b" "sc b = ?m" "\<forall>j < i. sc (L ! j) \<noteq> ?m"
    unfolding find_Some_iff by blast
  from assms(3,4) setL have "p \<in> set L" by simp
  then obtain k where k: "k < length L" "L ! k = p" unfolding in_set_conv_nth by blast
  from assms(5) i(3) have "sc p = ?m" by simp
  with i(4) k have "\<not> k < i" by auto
  moreover from assms(6) i(2) k(2) have "k \<noteq> i" by auto
  ultimately have "i < k" by simp
  moreover have "sorted_wrt before L" unfolding L_def using assms(2) by (rule sorted_wrt_filter)
  ultimately show ?thesis using i(2) k by (auto simp: sorted_wrt_iff_nth_less)
qed

lemma placeEntry_skip:
  assumes "wfGrid g"
    and "case chosenPlacement g (entry_word e) placed of None \<Rightarrow> True
         | Some p \<Rightarrow> \<not> scoreAt g (entry_word e) p > 0"
  shows "placeEntry e g placed = Inr (g, placed)"
  using assms(2) findBestPlacement_firstBest [OF assms(1), of "entry_word e" placed "getOccupied placed"]
  by (auto simp: placeEntry_def chosenPlacement_def toPlacement_def split: option.splits prod.splits)

lemma placeEntry_commit:
  assumes "wfGrid g"
    and "chosenPlacement g (entry_word e) placed = Some (d, r, c)"
    and "scoreAt g (entry_word e) (d, r, c) > 0"
  shows "\<exists>g'. placeEntry e g placed = Inr (g', placed @ [newPlaced e r c d])
           \<and> committed g g' (entry_word e) r c d
           \<and> canPlaceSpec g (entry_word e) r c d placed (getOccupied placed)"
proof -
  from assms(2) have legal: "legalAt g (entry_word e) placed (getOccupied placed) (d, r, c)"
    unfolding chosenPlacement_def by (rule firstBest_Some(2))
  then have spec: "canPlaceSpec g (entry_word e) r c d placed (getOccupied placed)"
    by (simp add: legalAt_def)
  then have "fitsInGrid (length (entry_word e)) r c d" by (simp add: canPlaceSpec_def)
  from placeWord_committed [OF assms(1) this] obtain g' where
    g': "placeWord g (entry_word e) r c d = Inr g'" "committed g g' (entry_word e) r c d"
    by blast
  have "placeEntry e g placed = Inr (g', placed @ [newPlaced e r c d])"
    using assms(2,3) g'(1)
      findBestPlacement_firstBest [OF assms(1), of "entry_word e" placed "getOccupied placed"]
    by (simp add: placeEntry_def chosenPlacement_def toPlacement_def)
  with g'(2) spec show ?thesis by blast
qed

lemma legal_start_in_grid:
  assumes "canPlaceSpec g w r c d placed occupied" and "placed \<noteq> []"
  shows "r < GRID_SIZE \<and> c < GRID_SIZE"
proof -
  from assms have "1 \<le> intersections g r c d (length w)" by (simp add: canPlaceSpec_def)
  then have "0 < length w" by (auto simp: intersections_def)
  moreover from assms(1) have "fitsInGrid (length w) r c d" by (simp add: canPlaceSpec_def)
  ultimately show ?thesis by (cases d; cases w) (simp_all add: fitsInGrid_def)
qed

lemma placeEntry_layoutOk:
  assumes "layoutOk g placed" and "placed \<noteq> []"
  shows "\<exists>g' placed'. placeEntry e g placed = Inr (g', placed') \<and> layoutOk g' placed'
           \<and> placed' \<noteq> []"
proof -
  from assms have wf: "wfGrid g" by (simp add: layoutOk_def)
  show ?thesis
  proof (cases "chosenPlacement g (entry_word e) placed")
    case None
    with placeEntry_skip [OF wf, of e placed] assms show ?thesis by simp
  next
    case (Some p)
    obtain d r c where p: "p = (d, r, c)" by (cases p)
    show ?thesis
    proof (cases "scoreAt g (entry_word e) p > 0")
      case False
      with Some placeEntry_skip [OF wf, of e placed] assms show ?thesis by simp
    next
      case True
      from placeEntry_commit [OF wf] Some True p obtain g' where
        run: "placeEntry e g placed = Inr (g', placed @ [newPlaced e r c d])"
        and com: "committed g g' (entry_word e) r c d"
        and spec: "canPlaceSpec g (entry_word e) r c d placed (getOccupied placed)"
        by blast
      from legal_start_in_grid [OF spec assms(2)] have st: "r < GRID_SIZE" "c < GRID_SIZE"
        by simp_all
      have "layoutOk g' (placed @ [newPlaced e r c d])"
        by (rule layoutOk_place [OF assms(1) spec com _ _ _ _ st]) (simp_all add: newPlaced_def)
      with run show ?thesis by blast
    qed
  qed
qed

lemma placeRest_layoutOk:
  "layoutOk g placed \<Longrightarrow> placed \<noteq> [] \<or> es = [] \<Longrightarrow>
   \<exists>g' placed'. placeRest es g placed = Inr (g', placed') \<and> layoutOk g' placed'"
proof (induction es arbitrary: g placed)
  case Nil
  then show ?case by simp
next
  case (Cons e es)
  show ?case
  proof (cases "length placed < 28")
    case False
    with Cons.prems show ?thesis by simp
  next
    case True
    from Cons.prems(2) have ne: "placed \<noteq> []" by simp
    from placeEntry_layoutOk [OF Cons.prems(1) ne, of e] obtain g1 p1 where
      one: "placeEntry e g placed = Inr (g1, p1)" and ok: "layoutOk g1 p1" and ne1: "p1 \<noteq> []"
      by blast
    from Cons.IH [OF ok] ne1 one True show ?thesis by simp
  qed
qed

lemma empty_grid_legal:
  assumes "length w \<le> GRID_SIZE"
  shows "canPlaceSpec createEmptyGrid w (GRID_SIZE div 2) ((GRID_SIZE - length w) div 2) Across []
           (getOccupied [])"
proof -
  have e: "cellFree createEmptyGrid r c" for r c
  proof (cases "0 \<le> r \<and> r < int GRID_SIZE \<and> 0 \<le> c \<and> c < int GRID_SIZE")
    case True
    then have "nat r < GRID_SIZE" "nat c < GRID_SIZE" by auto
    then show ?thesis by (simp add: cellFree_def createEmptyGrid_nth)
  next
    case False
    then show ?thesis by (auto simp: cellFree_def)
  qed
  have fits: "fitsInGrid (length w) (GRID_SIZE div 2) ((GRID_SIZE - length w) div 2) Across"
    using assms by (simp add: fitsInGrid_def GRID_SIZE_def)
  have "letterOk createEmptyGrid (GRID_SIZE div 2) ((GRID_SIZE - length w) div 2) Across occ i ch"
    if "i < length w" for i ch occ
    using fits_cellInGrid [OF fits that]
    by (auto simp: letterOk_def e cellInGrid_def createEmptyGrid_nth split: prod.splits)
  with fits e show ?thesis by (simp add: canPlaceSpec_def)
qed

lemma placeFirst_layoutOk:
  assumes "\<forall>e \<in> set shuffled. length (entry_word e) \<le> GRID_SIZE"
  shows "\<exists>g placed. placeFirst shuffled = Inr (g, placed) \<and> layoutOk g placed
           \<and> (placed \<noteq> [] \<or> shuffled = [])"
proof (cases shuffled)
  case Nil
  with layoutOk_empty show ?thesis by (simp add: placeFirst_def)
next
  case (Cons first rest)
  with assms have len: "length (entry_word first) \<le> GRID_SIZE" by simp
  let ?r = "GRID_SIZE div 2" and ?c = "(GRID_SIZE - length (entry_word first)) div 2"
  note spec = empty_grid_legal [OF len]
  then have "fitsInGrid (length (entry_word first)) ?r ?c Across" by (simp add: canPlaceSpec_def)
  from placeWord_committed [OF wfGrid_createEmptyGrid this] obtain g where
    g: "placeWord createEmptyGrid (entry_word first) ?r ?c Across = Inr g"
       "committed createEmptyGrid g (entry_word first) ?r ?c Across" by blast
  have "layoutOk g ([] @ [newPlaced first ?r ?c Across])"
    by (rule layoutOk_place [OF layoutOk_empty spec g(2)])
      (simp_all add: newPlaced_def GRID_SIZE_def)
  with g(1) Cons show ?thesis by (simp add: placeFirst_def Let_def)
qed

lemma randomInt_less:
  assumes "rngOk rng" and "0 < k"
  shows "randomInt rng pos k < k"
proof -
  from assms(1) have x: "0 \<le> rng pos" "rng pos < 1" by (simp_all add: rngOk_def)
  have "rng pos * of_nat k < 1 * of_nat k"
    using x(2) assms(2) by (intro mult_strict_right_mono) simp_all
  then have "\<lfloor>rng pos * of_nat k\<rfloor> < int k"
    by (simp add: floor_less_iff)
  moreover have "0 \<le> \<lfloor>rng pos * of_nat k\<rfloor>" using x(1) by simp
  ultimately show ?thesis unfolding randomInt_def by (simp only: nat_less_iff)
qed

lemma shuffleLoop_result:
  "shuffleLoop rng pos k a = Inr (a', pos') \<Longrightarrow>
   set a' = set a \<and> length a' = length a \<and> pos' = pos + k"
proof (induction k arbitrary: pos a)
  case 0
  then show ?case by simp
next
  case (Suc k)
  let ?j = "randomInt rng pos (Suc k + 1)"
  from Suc.prems have inb: "Suc k < length a" "?j < length a"
    by (auto simp: Let_def split: if_splits)
  with Suc.prems have "shuffleLoop rng (pos + 1) k (a[Suc k := a ! ?j, ?j := a ! Suc k]) = Inr (a', pos')"
    by (simp add: Let_def)
  from Suc.IH [OF this] inb show ?case by (simp add: set_swap)
qed

lemma shuffleLoop_total:
  assumes "rngOk rng"
  shows "k < length a \<or> k = 0 \<Longrightarrow> \<exists>a'. shuffleLoop rng pos k a = Inr (a', pos + k)"
proof (induction k arbitrary: pos a)
  case 0
  show ?case by simp
next
  case (Suc k)
  let ?j = "randomInt rng pos (Suc k + 1)"
  from Suc.prems have i: "Suc k < length a" by simp
  from randomInt_less [OF assms, of "Suc k + 1" pos] have "?j < Suc k + 1" by simp
  with i have j: "?j < length a" by simp
  have "k < length (a[Suc k := a ! ?j, ?j := a ! Suc k]) \<or> k = 0" using i by simp
  from Suc.IH [OF this, of "pos + 1"] i j show ?case by (simp add: Let_def)
qed

lemma shuffle_result:
  "shuffle rng pos a = Inr (a', pos') \<Longrightarrow>
   set a' = set a \<and> length a' = length a \<and> pos' = pos + (length a - 1)"
  unfolding shuffle_def by (rule shuffleLoop_result)

lemma shuffle_total:
  assumes "rngOk rng"
  shows "\<exists>a'. shuffle rng pos a = Inr (a', pos + (length a - 1))"
  unfolding shuffle_def by (rule shuffleLoop_total [OF assms]) (cases a, simp_all)

lemma runAttempt_after_shuffle:
  assumes "shuffle rng pos wordPool = Inr (sh, pos')"
  shows "\<exists>g placed. runAttempt rng pos wordPool = Inr ((g, placed), pos') \<and> layoutOk g placed"
proof -
  let ?shuffled = "filter (\<lambda>w. length (entry_word w) \<le> GRID_SIZE) sh"
  have "\<forall>e \<in> set ?shuffled. length (entry_word e) \<le> GRID_SIZE" by simp
  from placeFirst_layoutOk [OF this] obtain g placed where
    first: "placeFirst ?shuffled = Inr (g, placed)" and ok: "layoutOk g placed"
    and ne: "placed \<noteq> [] \<or> ?shuffled = []" by blast
  from ne have "placed \<noteq> [] \<or> drop 1 ?shuffled = []" by auto
  from placeRest_layoutOk [OF ok this] obtain g' placed' where
    rest: "placeRest (drop 1 ?shuffled) g placed = Inr (g', placed')" and ok': "layoutOk g' placed'"
    by blast
  from assms first rest have "runAttempt rng pos wordPool = Inr ((g', placed'), pos')"
    by (simp add: runAttempt_def Let_def)
  with ok' show ?thesis by blast
qed

lemma runAttempt_result:
  assumes "runAttempt rng pos wordPool = Inr ((g, placed), pos')"
  shows "layoutOk g placed \<and> pos' = pos + (length wordPool - 1)"
proof -
  from assms obtain sh p1 where sh: "shuffle rng pos wordPool = Inr (sh, p1)"
    by (auto simp: runAttempt_def split: sum.splits)
  from runAttempt_after_shuffle [OF sh] assms shuffle_result [OF sh] show ?thesis by auto
qed

lemma runAttempt_total:
  assumes "rngOk rng"
  shows "\<exists>g placed. runAttempt rng pos wordPool = Inr ((g, placed), pos + (length wordPool - 1))"
proof -
  from shuffle_total [OF assms, of pos wordPool] obtain sh where
    "shuffle rng pos wordPool = Inr (sh, pos + (length wordPool - 1))" by blast
  from runAttempt_after_shuffle [OF this] show ?thesis by blast
qed

lemma attempts_result:
  "layoutOk bestGrid bestPlaced \<Longrightarrow>
   attempts k rng pos wordPool bestPlaced bestGrid = Inr ((placed, g), pos') \<Longrightarrow>
   layoutOk g placed \<and> pos' = pos + k * (length wordPool - 1)"
proof (induction k arbitrary: pos bestPlaced bestGrid)
  case 0
  then show ?case by simp
next
  case (Suc k)
  from Suc.prems(2) obtain g1 p1 pos1 where
    one: "runAttempt rng pos wordPool = Inr ((g1, p1), pos1)"
    by (auto split: sum.splits)
  note r = runAttempt_result [OF one]
  show ?case
  proof (cases "length p1 > length bestPlaced")
    case True
    with Suc.prems(2) one have "attempts k rng pos1 wordPool p1 g1 = Inr ((placed, g), pos')" by simp
    from Suc.IH [OF _ this] r show ?thesis by simp
  next
    case False
    with Suc.prems(2) one have "attempts k rng pos1 wordPool bestPlaced bestGrid = Inr ((placed, g), pos')"
      by simp
    from Suc.IH [OF Suc.prems(1) this] r show ?thesis by simp
  qed
qed

lemma attempts_total:
  assumes "rngOk rng"
  shows "\<exists>placed g pos'. attempts k rng pos wordPool bestPlaced bestGrid = Inr ((placed, g), pos')"
proof (induction k arbitrary: pos bestPlaced bestGrid)
  case 0
  show ?case by simp
next
  case (Suc k)
  from runAttempt_total [OF assms, of pos wordPool] obtain g1 p1 pos1 where
    one: "runAttempt rng pos wordPool = Inr ((g1, p1), pos1)" by blast
  show ?case
    using Suc.IH [of pos1 p1 g1] Suc.IH [of pos1 bestPlaced bestGrid] one by simp
qed

section \<open>Legality of the returned layout\<close>

lemma wordCells_number [simp]: "wordCells (pw\<lparr>number := k\<rparr>) = wordCells pw"
  by (simp add: wordCells_def)

lemma sameLayout_refl: "sameLayout xs xs"
  by (simp add: sameLayout_def)

lemma sameLayout_trans: "sameLayout xs ys \<Longrightarrow> sameLayout ys zs \<Longrightarrow> sameLayout xs zs"
  by (simp add: sameLayout_def)

lemma sameLayout_sort: "sameLayout xs (sort_key f xs)"
  unfolding sameLayout_def
proof (intro allI impI)
  fix P :: "PlacedWord \<Rightarrow> bool"
  have "length (filter P (sort_key f xs)) = length (sort_key f (filter P xs))"
    by (simp add: filter_sort)
  then show "length (filter P (sort_key f xs)) = length (filter P xs)" by simp
qed

lemma sameLayout_numberLoop: "sameLayout xs (numberLoop xs m n)"
  unfolding sameLayout_def
proof (intro allI impI)
  fix P :: "PlacedWord \<Rightarrow> bool" assume nf: "numberFree P"
  show "length (filter P (numberLoop xs m n)) = length (filter P xs)"
  proof (induction xs arbitrary: m n)
    case Nil
    show ?case by simp
  next
    case (Cons pw xs)
    from nf have "P (pw\<lparr>number := k\<rparr>) = P pw" for k by (simp add: numberFree_def)
    with Cons.IH show ?case by (simp split: option.splits)
  qed
qed

lemma sameLayout_numberClues: "sameLayout placed (numberClues placed)"
  unfolding numberClues_def sortByPosition_def
  by (rule sameLayout_trans [OF sameLayout_sort sameLayout_numberLoop])

lemma sameLayout_bex:
  assumes "sameLayout xs ys" and "numberFree P"
  shows "(\<exists>pw \<in> set ys. P pw) \<longleftrightarrow> (\<exists>pw \<in> set xs. P pw)"
proof -
  have ex: "(\<exists>pw \<in> set zs. P pw) \<longleftrightarrow> 0 < length (filter P zs)" for zs
    by (auto simp: filter_empty_conv)
  from assms have "length (filter P ys) = length (filter P xs)"
    unfolding sameLayout_def by blast
  then show ?thesis unfolding ex by simp
qed

lemma sameLayout_ball:
  assumes "sameLayout xs ys" and "numberFree P"
  shows "(\<forall>pw \<in> set ys. P pw) \<longleftrightarrow> (\<forall>pw \<in> set xs. P pw)"
proof -
  from assms(2) have "numberFree (\<lambda>pw. \<not> P pw)" by (simp add: numberFree_def)
  from sameLayout_bex [OF assms(1) this] show ?thesis by blast
qed

lemma sameLayout_coveredBy:
  assumes "sameLayout xs ys"
  shows "coveredBy ys d k \<longleftrightarrow> coveredBy xs d k"
  unfolding coveredBy_def
  by (rule sameLayout_bex [OF assms]) (simp add: numberFree_def)

lemma sameLayout_coversBoth:
  assumes "sameLayout xs ys"
  shows "coversBoth ys d k k' \<longleftrightarrow> coversBoth xs d k k'"
  unfolding coversBoth_def
  by (rule sameLayout_bex [OF assms]) (simp add: numberFree_def)

lemma sameLayout_layoutOk:
  assumes "sameLayout xs ys" and "layoutOk g xs"
  shows "layoutOk g ys"
proof -
  have fit: "allFit ys \<longleftrightarrow> allFit xs"
    unfolding allFit_def by (rule sameLayout_ball [OF assms(1)]) (simp add: numberFree_def)
  have st: "startsInGrid ys \<longleftrightarrow> startsInGrid xs"
    unfolding startsInGrid_def by (rule sameLayout_ball [OF assms(1)]) (simp add: numberFree_def)
  have lt: "lettersOnGrid g ys \<longleftrightarrow> lettersOnGrid g xs"
    unfolding lettersOnGrid_def by (rule sameLayout_ball [OF assms(1)]) (simp add: numberFree_def)
  have cov: "lettersCovered g ys \<longleftrightarrow> lettersCovered g xs"
    by (simp add: lettersCovered_def sameLayout_coveredBy [OF assms(1)])
  have npo: "noParallelOverlap ys \<longleftrightarrow> noParallelOverlap xs"
  proof -
    have "numberFree (\<lambda>pw. direction pw = d \<and> k \<in> set (wordCells pw))" for d k
      by (simp add: numberFree_def)
    with assms(1) have "length (filter (\<lambda>pw. direction pw = d \<and> k \<in> set (wordCells pw)) ys)
        = length (filter (\<lambda>pw. direction pw = d \<and> k \<in> set (wordCells pw)) xs)" for d k
      unfolding sameLayout_def by blast
    then show ?thesis by (simp add: noParallelOverlap_def)
  qed
  have runs: "runsAreWords g ys \<longleftrightarrow> runsAreWords g xs"
    by (simp add: runsAreWords_def sameLayout_coversBoth [OF assms(1)])
  from assms(2) fit st lt cov npo runs show ?thesis by (simp add: layoutOk_def)
qed


lemma generatePuzzle_draws:
  "generatePuzzle wordPool solutionWords rng = Inr p \<longleftrightarrow>
     (\<exists>n. generatePuzzleDraws wordPool solutionWords rng = Inr (p, n))"
  by (auto simp: generatePuzzle_def split: sum.splits)

lemma generatePuzzleDraws_parts:
  assumes "generatePuzzleDraws wordPool solutionWords rng = Inr (p, n)"
  obtains placed bestGrid pos cg0 cellGrid letterCells st where
    "attempts 8 rng 1 wordPool [] createEmptyGrid = Inr ((placed, bestGrid), pos)"
    and "buildCellGrid bestGrid = Inr cg0"
    and "foldE setClueRefs (numberClues placed) cg0 = Inr cellGrid"
    and "letterCellsOf cellGrid = Inr letterCells"
    and "randomInt rng 0 (length solutionWords) < length solutionWords"
    and "solutionLoop rng letterCells (cellToWords (numberClues placed)) 0
           (solutionWords ! randomInt rng 0 (length solutionWords))
           \<lparr>cells = cellGrid, assigned = [], usedCells = {}, usedWords = {}, draws = pos\<rparr> = Inr st"
    and "p = \<lparr>grid = cells st, placedWords = numberClues placed,
              solutionWord = solutionWords ! randomInt rng 0 (length solutionWords),
              solutionCells = assigned st\<rparr>"
    and "n = draws st"
  using assms
  by (auto simp: generatePuzzleDraws_def Let_def split: sum.splits prod.splits if_splits)

lemma distinct_wordCells: "distinct (wordCells pw)"
  unfolding wordCells_def
  by (simp add: distinct_map inj_on_def cellOf_inj)

lemma letterAt_cell:
  assumes "i < length (word pw)"
  shows "letterAt pw (cellOf (direction pw) (row pw) (col pw) i) = Some (word pw ! i)"
proof -
  have "wordCells pw ! i = cellOf (direction pw) (row pw) (col pw) i"
    using assms by (simp add: wordCells_def)
  moreover have "map_of (zip (wordCells pw) (word pw)) (wordCells pw ! i) = Some (word pw ! i)"
  proof (rule map_of_zip_nth)
    show "length (wordCells pw) = length (word pw)" by (simp add: wordCells_def)
    show "distinct (wordCells pw)" by (rule distinct_wordCells)
    show "i < length (word pw)" by (rule assms)
  qed
  ultimately show ?thesis by (simp add: letterAt_def)
qed

lemma layoutOk_shared_letter:
  assumes "layoutOk g ws" and "pw \<in> set ws" and "q \<in> set ws"
    and "k \<in> set (wordCells pw)" and "k \<in> set (wordCells q)"
  shows "letterAt pw k = letterAt q k"
proof -
  from assms(1) have lt: "lettersOnGrid g ws" by (simp add: layoutOk_def)
  have one: "letterAt x k = Some (hd (g ! fst k ! snd k))" if "x \<in> set ws" "k \<in> set (wordCells x)" for x
  proof -
    from that(2) obtain i where i: "i < length (word x)" "k = cellOf (direction x) (row x) (col x) i"
      by (auto simp: wordCells_def)
    from lt that(1) i have "g ! fst k ! snd k = [word x ! i]" by (simp add: lettersOnGrid_def)
    with letterAt_cell [OF i(1)] i(2) show ?thesis by simp
  qed
  from one [OF assms(2,4)] one [OF assms(3,5)] show ?thesis by simp
qed

lemma coversBoth_sym: "coversBoth ws d k k' \<longleftrightarrow> coversBoth ws d k' k"
  by (auto simp: coversBoth_def)

lemma layoutOk_same_word:
  assumes "noParallelOverlap ws" and "i < length ws" and "pw \<in> set ws"
    and "direction pw = direction (ws ! i)"
    and "k \<in> set (wordCells pw)" and "k \<in> set (wordCells (ws ! i))"
  shows "pw = ws ! i"
proof -
  from assms(3) obtain m where m: "m < length ws" "ws ! m = pw" by (auto simp: in_set_conv_nth)
  have "m = i"
  proof (rule ccontr)
    assume "m \<noteq> i"
    from noParallelOverlap_nth [OF assms(1) m(1) assms(2) this] m(2) assms(4,5,6)
    show False by auto
  qed
  with m show ?thesis by simp
qed

lemma layoutOk_adjacent:
  assumes ok: "layoutOk g ws" and i: "i < length ws" and j: "j < length ws" and ne: "i \<noteq> j"
    and par: "direction (ws ! i) = direction (ws ! j)"
    and k: "k \<in> set (wordCells (ws ! i))" and k': "k' \<in> set (wordCells (ws ! j))"
    and adj: "adjacentCells k k'"
  shows "coversBoth ws (otherDir (direction (ws ! i))) k k'"
proof -
  from ok have fit: "allFit ws" and lt: "lettersOnGrid g ws" and npo: "noParallelOverlap ws"
    and runs: "runsAreWords g ws" by (simp_all add: layoutOk_def)
  obtain r c where kk: "k = (r, c)" by (cases k)
  obtain r' c' where kk': "k' = (r', c')" by (cases k')
  have wi: "ws ! i \<in> set ws" and wj: "ws ! j \<in> set ws" using i j by simp_all
  from placedCell_in_grid [OF fit wi] k kk have inb: "r < GRID_SIZE" "c < GRID_SIZE" by auto
  from placedCell_in_grid [OF fit wj] k' kk' have inb': "r' < GRID_SIZE" "c' < GRID_SIZE" by auto
  from placedCell_letter [OF lt wi] k kk have ne1: "g ! r ! c \<noteq> []" by auto
  from placedCell_letter [OF lt wj] k' kk' have ne2: "g ! r' ! c' \<noteq> []" by auto
  have runsH: "coversBoth ws Across (a, b) (a, b + 1)"
    if "a < GRID_SIZE" "b + 1 < GRID_SIZE" "g ! a ! b \<noteq> []" "g ! a ! (b + 1) \<noteq> []" for a b
    using runs that by (simp add: runsAreWords_def)
  have runsV: "coversBoth ws Down (a, b) (a + 1, b)"
    if "a + 1 < GRID_SIZE" "b < GRID_SIZE" "g ! a ! b \<noteq> []" "g ! (a + 1) ! b \<noteq> []" for a b
    using runs that by (simp add: runsAreWords_def)
  have horiz: "coversBoth ws Across (r, c) (r', c')" if "r = r'" "c = c' + 1 \<or> c' = c + 1"
  proof -
    from that(2) show ?thesis
    proof
      assume "c = c' + 1"
      with runsH [of r' c'] that(1) inb inb' ne1 ne2
      have "coversBoth ws Across (r', c') (r', c' + 1)" by simp
      with \<open>c = c' + 1\<close> that(1) show ?thesis by (simp add: coversBoth_sym)
    next
      assume "c' = c + 1"
      with runsH [of r c] that(1) inb inb' ne1 ne2 show ?thesis by simp
    qed
  qed
  have vert: "coversBoth ws Down (r, c) (r', c')" if "c = c'" "r = r' + 1 \<or> r' = r + 1"
  proof -
    from that(2) show ?thesis
    proof
      assume "r = r' + 1"
      with runsV [of r' c'] that(1) inb inb' ne1 ne2
      have "coversBoth ws Down (r', c') (r' + 1, c')" by simp
      with \<open>r = r' + 1\<close> that(1) show ?thesis by (simp add: coversBoth_sym)
    next
      assume "r' = r + 1"
      with runsV [of r c] that(1) inb inb' ne1 ne2 show ?thesis by simp
    qed
  qed
  have impossible: False if "coversBoth ws (direction (ws ! i)) k k'"
  proof -
    from that obtain pw where pw: "pw \<in> set ws" "direction pw = direction (ws ! i)"
      "k \<in> set (wordCells pw)" "k' \<in> set (wordCells pw)" by (auto simp: coversBoth_def)
    from layoutOk_same_word [OF npo i pw(1,2,3) k] have "pw = ws ! i" .
    moreover from layoutOk_same_word [OF npo j pw(1) _ pw(4) k'] pw(2) par have "pw = ws ! j" by simp
    ultimately have "ws ! i = ws ! j" by simp
    with noParallelOverlap_nth [OF npo i j ne par] k k' show False by auto
  qed
  from adj kk kk' consider "r = r'" "c = c' + 1 \<or> c' = c + 1" | "c = c'" "r = r' + 1 \<or> r' = r + 1"
    by (auto simp: adjacentCells_def)
  then show ?thesis
  proof cases
    case 1
    from horiz [OF 1] kk kk' impossible show ?thesis
      by (cases "direction (ws ! i)") (auto simp: otherDir_def)
  next
    case 2
    from vert [OF 2] kk kk' impossible show ?thesis
      by (cases "direction (ws ! i)") (auto simp: otherDir_def)
  qed
qed

lemma layoutOk_crosswordLegal:
  assumes "layoutOk g ws"
  shows "crosswordLegal ws"
proof -
  from assms have npo: "noParallelOverlap ws" by (simp add: layoutOk_def)
  have pair: "(\<forall>k \<in> set (wordCells (ws ! i)) \<inter> set (wordCells (ws ! j)).
            direction (ws ! i) \<noteq> direction (ws ! j) \<and> letterAt (ws ! i) k = letterAt (ws ! j) k)
         \<and> (direction (ws ! i) = direction (ws ! j) \<longrightarrow>
              (\<forall>k \<in> set (wordCells (ws ! i)). \<forall>k' \<in> set (wordCells (ws ! j)).
                 adjacentCells k k' \<longrightarrow> coversBoth ws (otherDir (direction (ws ! i))) k k'))"
    if i: "i < length ws" and j: "j < length ws" and ne: "i \<noteq> j" for i j
  proof (intro conjI ballI impI)
    fix k assume k: "k \<in> set (wordCells (ws ! i)) \<inter> set (wordCells (ws ! j))"
    show "direction (ws ! i) \<noteq> direction (ws ! j)"
      using noParallelOverlap_nth [OF npo i j ne] k by auto
    show "letterAt (ws ! i) k = letterAt (ws ! j) k"
      using layoutOk_shared_letter [OF assms, of "ws ! i" "ws ! j" k] i j k by simp
  next
    fix k k' assume "direction (ws ! i) = direction (ws ! j)"
      "k \<in> set (wordCells (ws ! i))" "k' \<in> set (wordCells (ws ! j))" "adjacentCells k k'"
    then show "coversBoth ws (otherDir (direction (ws ! i))) k k'"
      by (rule layoutOk_adjacent [OF assms i j ne])
  qed
  from npo have "\<forall>d k. length (filter (\<lambda>pw. direction pw = d \<and> k \<in> set (wordCells pw)) ws) \<le> 1"
    unfolding noParallelOverlap_def .
  with pair show ?thesis unfolding crosswordLegal_def by blast
qed

lemma generatePuzzle_layoutOk:
  assumes "generatePuzzleDraws wordPool solutionWords rng = Inr (p, n)"
  shows "\<exists>g. layoutOk g (placedWords p)"
proof -
  from assms obtain placed bestGrid pos where
    att: "attempts 8 rng 1 wordPool [] createEmptyGrid = Inr ((placed, bestGrid), pos)"
    and pw: "placedWords p = numberClues placed"
    by (rule generatePuzzleDraws_parts) simp
  from attempts_result [OF layoutOk_empty att] have "layoutOk bestGrid placed" by simp
  from sameLayout_layoutOk [OF sameLayout_numberClues this] pw show ?thesis by auto
qed

text \<open>
  Claim C2. In every puzzle that \<open>generatePuzzle\<close> returns, two distinct placed words that
  share a cell are perpendicular and have the same letter at that cell; two parallel
  words with adjacent cells have a perpendicular placed word through both cells; and for
  each direction a cell is covered by at most one placed word.
\<close>

theorem generatePuzzle_crossword_legal:
  assumes "generatePuzzle wordPool solutionWords rng = Inr p"
  shows "crosswordLegal (placedWords p)"
proof -
  from assms obtain n where "generatePuzzleDraws wordPool solutionWords rng = Inr (p, n)"
    by (auto simp: generatePuzzle_draws)
  from generatePuzzle_layoutOk [OF this] obtain g where "layoutOk g (placedWords p)" ..
  then show ?thesis by (rule layoutOk_crosswordLegal)
qed

section \<open>The grid of cells, the numbering and the overlay\<close>

lemma mapE_pure: "(\<forall>x \<in> set xs. f x = Inr (h x)) \<Longrightarrow> mapE f xs = Inr (map h xs)"
  by (induction xs) simp_all

lemma filterE_pure: "(\<forall>x \<in> set xs. p x = Inr (q x)) \<Longrightarrow> filterE p xs = Inr (filter q xs)"
  by (induction xs) simp_all

lemma foldE_invariant:
  assumes "I s" and "\<And>x s. x \<in> set xs \<Longrightarrow> I s \<Longrightarrow> \<exists>s'. f x s = Inr s' \<and> I s'"
  shows "\<exists>s'. foldE f xs s = Inr s' \<and> I s'"
  using assms
proof (induction xs arbitrary: s)
  case Nil
  then show ?case by simp
next
  case (Cons x xs)
  from Cons.prems(2) [of x s] Cons.prems(1) obtain s1 where s1: "f x s = Inr s1" "I s1" by auto
  from Cons.IH [OF s1(2)] Cons.prems(2) obtain s' where "foldE f xs s1 = Inr s'" "I s'"
    by (metis list.set_intros(2))
  with s1 show ?case by simp
qed

lemma foldE_preserves:
  assumes "foldE f xs s = Inr s'" and "I s" and "\<And>x s s'. x \<in> set xs \<Longrightarrow> I s \<Longrightarrow> f x s = Inr s' \<Longrightarrow> I s'"
  shows "I s'"
  using assms
proof (induction xs arbitrary: s)
  case Nil
  then show ?case by simp
next
  case (Cons x xs)
  from Cons.prems(1) obtain s1 where s1: "f x s = Inr s1" "foldE f xs s1 = Inr s'"
    by (auto split: sum.splits)
  from Cons.prems(3) [of x s s1] Cons.prems(2) s1(1) have "I s1" by simp
  from Cons.IH [OF s1(2) this] Cons.prems(3) show ?case by (metis list.set_intros(2))
qed

lemma buildCellGrid_wf:
  assumes "wfGrid g"
  shows "buildCellGrid g = Inr (map (\<lambda>r. map (\<lambda>c. mkCell (g ! r ! c)) [0..<GRID_SIZE]) [0..<GRID_SIZE])"
  unfolding buildCellGrid_def
  by (intro mapE_pure ballI) (simp add: getAt_wf [OF assms])

lemma buildCellGrid_result:
  assumes "wfGrid g" and "buildCellGrid g = Inr cg"
  shows "wfGrid cg" and "\<And>r c. r < GRID_SIZE \<Longrightarrow> c < GRID_SIZE \<Longrightarrow> cg ! r ! c = mkCell (g ! r ! c)"
  using assms(2) unfolding buildCellGrid_wf [OF assms(1)]
  by (auto simp: wfGrid_def)

lemma cellAt_wf: "wfGrid cg \<Longrightarrow> r < GRID_SIZE \<Longrightarrow> c < GRID_SIZE \<Longrightarrow> cellAt cg r c = Inr (cg ! r ! c)"
  by (simp add: cellAt_def wfGrid_def)

lemma modifyCell_wf:
  "wfGrid cg \<Longrightarrow> r < GRID_SIZE \<Longrightarrow> c < GRID_SIZE \<Longrightarrow>
   modifyCell cg r c f = Inr (cg[r := (cg ! r)[c := f (cg ! r ! c)]])"
  by (simp add: modifyCell_def wfGrid_def)

lemma modifyCell_result:
  assumes "wfGrid cg" and "modifyCell cg r c f = Inr cg'"
  shows "wfGrid cg'" and "r < GRID_SIZE" and "c < GRID_SIZE"
    and "\<And>r' c'. r' < GRID_SIZE \<Longrightarrow> c' < GRID_SIZE \<Longrightarrow>
           cg' ! r' ! c' = (if r' = r \<and> c' = c then f (cg ! r ! c) else cg ! r' ! c')"
proof -
  from assms(2) have inb: "r < length cg" "c < length (cg ! r)"
    and eq: "cg' = cg[r := (cg ! r)[c := f (cg ! r ! c)]]"
    by (auto simp: modifyCell_def split: if_splits)
  from inb assms(1) show "r < GRID_SIZE" "c < GRID_SIZE" by (auto simp: wfGrid_def)
  show "wfGrid cg'" unfolding eq using assms(1) by (rule wfGrid_put)
  show "cg' ! r' ! c' = (if r' = r \<and> c' = c then f (cg ! r ! c) else cg ! r' ! c')"
    if "r' < GRID_SIZE" "c' < GRID_SIZE" for r' c'
    unfolding eq using put_nth [OF assms(1) that] by simp
qed

lemma sameField_refl: "sameField h cg cg"
  by (simp add: sameField_def)

lemma sameField_trans: "sameField h a b \<Longrightarrow> sameField h b c \<Longrightarrow> sameField h a c"
  by (simp add: sameField_def)

lemma modifyCell_sameField:
  assumes "wfGrid cg" and "modifyCell cg r c f = Inr cg'" and "\<And>x. h (f x) = h x"
  shows "sameField h cg cg'"
  using modifyCell_result(4) [OF assms(1,2)] assms(3) by (simp add: sameField_def)

lemma foldE_modifyCell:
  assumes "wfGrid cg" and "foldE (\<lambda>i g. modifyCell g (rf i) (cf i) f) is cg = Inr cg'"
  shows "wfGrid cg'" and "(\<And>x. h (f x) = h x) \<Longrightarrow> sameField h cg cg'"
proof -
  have "wfGrid cg' \<and> ((\<forall>x. h (f x) = h x) \<longrightarrow> sameField h cg cg')"
    using assms
  proof (induction "is" arbitrary: cg)
    case Nil
    then show ?case by (simp add: sameField_refl)
  next
    case (Cons i "is")
    from Cons.prems(2) obtain cg1 where one: "modifyCell cg (rf i) (cf i) f = Inr cg1"
      and rest: "foldE (\<lambda>i g. modifyCell g (rf i) (cf i) f) is cg1 = Inr cg'"
      by (auto split: sum.splits)
    from modifyCell_result(1) [OF Cons.prems(1) one] have wf1: "wfGrid cg1" .
    from Cons.IH [OF wf1 rest] modifyCell_sameField [OF Cons.prems(1) one, of h]
    show ?case by (auto intro: sameField_trans)
  qed
  then show "wfGrid cg'" and "(\<And>x. h (f x) = h x) \<Longrightarrow> sameField h cg cg'" by auto
qed

lemma foldE_modifyCell_total:
  assumes "wfGrid cg" and "\<forall>i \<in> set is. rf i < GRID_SIZE \<and> cf i < GRID_SIZE"
  shows "\<exists>cg'. foldE (\<lambda>i g. modifyCell g (rf i) (cf i) f) is cg = Inr cg'"
  using assms
proof (induction "is" arbitrary: cg)
  case Nil
  show ?case by simp
next
  case (Cons i "is")
  from Cons.prems have inb: "rf i < GRID_SIZE" "cf i < GRID_SIZE" by simp_all
  note one = modifyCell_wf [OF Cons.prems(1) inb, of f]
  from modifyCell_result(1) [OF Cons.prems(1) one] have "wfGrid (cg[rf i := (cg ! rf i)[cf i := f (cg ! rf i ! cf i)]])" .
  from Cons.IH [OF this] Cons.prems(2) one show ?case by simp
qed

lemma setClueRefs_result:
  assumes "wfGrid cg" and "setClueRefs pw cg = Inr cg'"
  shows "wfGrid cg'"
    and "sameField letter cg cg'" and "sameField isBlack cg cg'"
    and "sameField isSolutionCell cg cg'" and "sameField solutionIndex cg cg'"
    and "row pw < GRID_SIZE \<and> col pw < GRID_SIZE"
    and "\<And>r c. r < GRID_SIZE \<Longrightarrow> c < GRID_SIZE \<Longrightarrow>
           cell_number (cg' ! r ! c) =
             (if (r, c) = startCell pw then lowerNumber (number pw) (cell_number (cg ! r ! c))
              else cell_number (cg ! r ! c))"
proof -
  let ?f = "\<lambda>cell. case cell_number cell of
                        None \<Rightarrow> cell\<lparr>cell_number := Some (number pw)\<rparr>
                      | Some k \<Rightarrow> if number pw < k then cell\<lparr>cell_number := Some (number pw)\<rparr>
                                  else cell"
  from assms(2) obtain cg1 where one: "modifyCell cg (row pw) (col pw) ?f = Inr cg1"
    and two: "(if direction pw = Across
          then foldE (\<lambda>i g. modifyCell g (row pw) (col pw + i)
                               (\<lambda>cell. cell\<lparr>acrossClue := Some (number pw)\<rparr>))
                 [0..<length (word pw)] cg1
          else foldE (\<lambda>i g. modifyCell g (row pw + i) (col pw)
                               (\<lambda>cell. cell\<lparr>downClue := Some (number pw)\<rparr>))
                 [0..<length (word pw)] cg1) = Inr cg'"
    by (auto simp: setClueRefs_def split: sum.splits)
  note r1 = modifyCell_result [OF assms(1) one]
  from r1 show "row pw < GRID_SIZE \<and> col pw < GRID_SIZE" by simp
  have f1: "sameField h cg cg1" if "\<And>x. h (?f x) = h x" for h :: "Cell \<Rightarrow> 'b"
    by (rule modifyCell_sameField [OF assms(1) one]) (rule that)
  have wf2: "wfGrid cg'" and f2: "sameField h cg1 cg'"
    if "\<And>x n. h (x\<lparr>acrossClue := n\<rparr>) = h x" "\<And>x n. h (x\<lparr>downClue := n\<rparr>) = h x"
    for h :: "Cell \<Rightarrow> 'b"
  proof -
    show "wfGrid cg'"
    proof (cases "direction pw = Across")
      case True
      with two show ?thesis by (auto intro: foldE_modifyCell(1) [OF r1(1)])
    next
      case False
      with two show ?thesis by (auto intro: foldE_modifyCell(1) [OF r1(1)])
    qed
    show "sameField h cg1 cg'"
    proof (cases "direction pw = Across")
      case True
      with two have "foldE (\<lambda>i g. modifyCell g (row pw) (col pw + i)
                               (\<lambda>cell. cell\<lparr>acrossClue := Some (number pw)\<rparr>))
                 [0..<length (word pw)] cg1 = Inr cg'" by simp
      from foldE_modifyCell(2) [OF r1(1) this, of h] that(1) show ?thesis by simp
    next
      case False
      with two have "foldE (\<lambda>i g. modifyCell g (row pw + i) (col pw)
                               (\<lambda>cell. cell\<lparr>downClue := Some (number pw)\<rparr>))
                 [0..<length (word pw)] cg1 = Inr cg'" by simp
      from foldE_modifyCell(2) [OF r1(1) this, of h] that(2) show ?thesis by simp
    qed
  qed
  from wf2 [of letter] show "wfGrid cg'" by simp
  have keep: "sameField h cg cg'"
    if "\<And>x. h (?f x) = h x" "\<And>x n. h (x\<lparr>acrossClue := n\<rparr>) = h x" "\<And>x n. h (x\<lparr>downClue := n\<rparr>) = h x"
    for h :: "Cell \<Rightarrow> 'b"
    using f1 [of h, OF that(1)] f2 [of h, OF that(2,3)] by (rule sameField_trans)
  show "sameField letter cg cg'" by (rule keep) (simp_all split: option.splits)
  show "sameField isBlack cg cg'" by (rule keep) (simp_all split: option.splits)
  show "sameField isSolutionCell cg cg'" by (rule keep) (simp_all split: option.splits)
  show "sameField solutionIndex cg cg'" by (rule keep) (simp_all split: option.splits)
  show "cell_number (cg' ! r ! c) =
             (if (r, c) = startCell pw then lowerNumber (number pw) (cell_number (cg ! r ! c))
              else cell_number (cg ! r ! c))"
    if rc: "r < GRID_SIZE" "c < GRID_SIZE" for r c
  proof -
    from f2 [of cell_number] rc have "cell_number (cg' ! r ! c) = cell_number (cg1 ! r ! c)"
      by (simp add: sameField_def)
    also have "\<dots> = (if (r, c) = startCell pw then lowerNumber (number pw) (cell_number (cg ! r ! c))
              else cell_number (cg ! r ! c))"
      using r1(4) [OF rc]
      by (auto simp: startCell_def lowerNumber_def min_def split: option.splits)
    finally show ?thesis .
  qed
qed

lemma setClueRefs_total:
  assumes "wfGrid cg" and "fitsInGrid (length (word pw)) (row pw) (col pw) (direction pw)"
    and "row pw < GRID_SIZE" and "col pw < GRID_SIZE"
  shows "\<exists>cg'. setClueRefs pw cg = Inr cg'"
proof -
  let ?f = "\<lambda>cell. case cell_number cell of
                        None \<Rightarrow> cell\<lparr>cell_number := Some (number pw)\<rparr>
                      | Some k \<Rightarrow> if number pw < k then cell\<lparr>cell_number := Some (number pw)\<rparr>
                                  else cell"
  note one = modifyCell_wf [OF assms(1,3,4), of ?f]
  from modifyCell_result(1) [OF assms(1) one] obtain cg1 where
    cg1: "modifyCell cg (row pw) (col pw) ?f = Inr cg1" "wfGrid cg1" using one by simp
  show ?thesis
  proof (cases "direction pw = Across")
    case True
    with assms(2) have "\<forall>i \<in> set [0..<length (word pw)]. row pw < GRID_SIZE \<and> col pw + i < GRID_SIZE"
      by (auto simp: fitsInGrid_def)
    from foldE_modifyCell_total [OF cg1(2) this] cg1(1) True show ?thesis
      by (simp add: setClueRefs_def)
  next
    case False
    with assms(2) have "\<forall>i \<in> set [0..<length (word pw)]. row pw + i < GRID_SIZE \<and> col pw < GRID_SIZE"
      by (auto simp: fitsInGrid_def)
    from foldE_modifyCell_total [OF cg1(2) this] cg1(1) False show ?thesis
      by (simp add: setClueRefs_def)
  qed
qed

lemma fold_lowerNumber_Some:
  "fold lowerNumber ns (Some k) = Some (Min (insert k (set ns)))"
proof (induction ns arbitrary: k)
  case Nil
  show ?case by simp
next
  case (Cons n ns)
  have "Min (insert (min k n) (set ns)) = Min (insert k (insert n (set ns)))"
    by (cases "set ns = {}") (simp_all add: min.assoc)
  with Cons.IH [of "min k n"] show ?case by (simp add: lowerNumber_def)
qed

lemma fold_lowerNumber_None: "fold lowerNumber ns None = smallestOf ns"
  by (cases ns) (simp_all add: smallestOf_def lowerNumber_def fold_lowerNumber_Some)

lemma clueRefs_fold_result:
  assumes "wfGrid cg" and "foldE setClueRefs ws cg = Inr cg'"
  shows "wfGrid cg' \<and> sameField letter cg cg' \<and> sameField isBlack cg cg'
         \<and> sameField isSolutionCell cg cg' \<and> sameField solutionIndex cg cg'
         \<and> (\<forall>r < GRID_SIZE. \<forall>c < GRID_SIZE.
               cell_number (cg' ! r ! c) = fold lowerNumber (startNumbers ws (r, c)) (cell_number (cg ! r ! c)))"
  using assms
proof (induction ws arbitrary: cg)
  case Nil
  then show ?case by (simp add: sameField_refl startNumbers_def)
next
  case (Cons pw ws)
  from Cons.prems(2) obtain cg1 where one: "setClueRefs pw cg = Inr cg1"
    and rest: "foldE setClueRefs ws cg1 = Inr cg'" by (auto split: sum.splits)
  note r1 = setClueRefs_result [OF Cons.prems(1) one]
  note ih = Cons.IH [OF r1(1) rest]
  have num: "cell_number (cg' ! r ! c) = fold lowerNumber (startNumbers (pw # ws) (r, c)) (cell_number (cg ! r ! c))"
    if rc: "r < GRID_SIZE" "c < GRID_SIZE" for r c
    using ih rc r1(7) [OF rc] by (simp add: startNumbers_def)
  from ih r1(2-5) num show ?case by (auto intro: sameField_trans)
qed

lemma clueRefs_fold_total:
  assumes "wfGrid cg" and "allFit ws" and "startsInGrid ws"
  shows "\<exists>cg'. foldE setClueRefs ws cg = Inr cg'"
proof -
  have "\<exists>cg'. foldE setClueRefs ws cg = Inr cg' \<and> wfGrid cg'"
  proof (rule foldE_invariant [where I = wfGrid])
    show "wfGrid cg" by (rule assms)
  next
    fix pw :: PlacedWord and s :: "Cell list list"
    assume pw: "pw \<in> set ws" and wf: "wfGrid s"
    from pw assms(2,3) have f: "fitsInGrid (length (word pw)) (row pw) (col pw) (direction pw)"
      "row pw < GRID_SIZE" "col pw < GRID_SIZE" by (simp_all add: allFit_def startsInGrid_def)
    from setClueRefs_total [OF wf f] obtain s' where s': "setClueRefs pw s = Inr s'" ..
    from setClueRefs_result(1) [OF wf s'] s' show "\<exists>s'. setClueRefs pw s = Inr s' \<and> wfGrid s'" by blast
  qed
  then show ?thesis by blast
qed

text \<open>The numbering loop on a list sorted by start cell.\<close>

lemma numberLoop_map_start: "map startCell (numberLoop xs m n) = map startCell xs"
  by (induction xs arbitrary: m n) (simp_all add: startCell_def split: option.splits)

lemma numberLoop_length: "length (numberLoop xs m n) = length xs"
  by (induction xs arbitrary: m n) (simp_all split: option.splits)

lemma numberLoop_rank:
  assumes "sorted (map startCell xs)"
    and "finite (dom m)"
    and "\<forall>k \<in> dom m. \<forall>x \<in> set xs. k \<le> startCell x"
    and "n = card (dom m) + 1"
    and "\<forall>k \<in> dom m. m k = Some (card {s \<in> dom m. s \<le> k})"
  shows "\<forall>pw \<in> set (numberLoop xs m n).
           number pw = card {s \<in> dom m \<union> startCell ` set xs. s \<le> startCell pw}"
  using assms
proof (induction xs arbitrary: m n)
  case Nil
  show ?case by simp
next
  case (Cons pw xs)
  let ?k = "startCell pw"
  from Cons.prems(1) have sorted: "sorted (map startCell xs)" and ge: "\<forall>x \<in> set xs. ?k \<le> startCell x"
    by simp_all
  have below: "{s \<in> dom m \<union> startCell ` set (pw # xs). s \<le> ?k} = insert ?k (dom m)"
    using Cons.prems(3) ge by (auto simp: antisym)
  show ?case
  proof (cases "m ?k")
    case None
    then have fresh: "?k \<notin> dom m" by auto
    let ?m = "m(?k \<mapsto> n)"
    have dom: "dom ?m = insert ?k (dom m)" by simp
    have n: "n = card (insert ?k (dom m))"
      using Cons.prems(2,4) fresh by simp
    have p2: "finite (dom ?m)" using Cons.prems(2) by simp
    have p3: "\<forall>k \<in> dom ?m. \<forall>x \<in> set xs. k \<le> startCell x"
      using Cons.prems(3) ge by auto
    have p4: "n + 1 = card (dom ?m) + 1" using n by simp
    have p5: "\<forall>k \<in> dom ?m. ?m k = Some (card {s \<in> dom ?m. s \<le> k})"
    proof
      fix k assume k: "k \<in> dom ?m"
      show "?m k = Some (card {s \<in> dom ?m. s \<le> k})"
      proof (cases "k = ?k")
        case True
        have "{s \<in> dom ?m. s \<le> ?k} = insert ?k (dom m)"
          using Cons.prems(3) by auto
        with True n show ?thesis by simp
      next
        case False
        with k have kd: "k \<in> dom m" by auto
        with Cons.prems(3) have "k \<le> ?k" by simp
        with False have "\<not> ?k \<le> k" by auto
        then have "{s \<in> dom ?m. s \<le> k} = {s \<in> dom m. s \<le> k}" by auto
        with Cons.prems(5) kd False show ?thesis by simp
      qed
    qed
    have u: "dom ?m \<union> startCell ` set xs = dom m \<union> startCell ` set (pw # xs)" by auto
    have rest: "\<forall>q \<in> set (numberLoop xs ?m (n + 1)).
           number q = card {s \<in> dom m \<union> startCell ` set (pw # xs). s \<le> startCell q}"
      using Cons.IH [OF sorted p2 p3 p4 p5] unfolding u .
    have head: "n = card {s \<in> dom m \<union> startCell ` set (pw # xs). s \<le> ?k}"
      unfolding below by (rule n)
    from None rest head show ?thesis by (simp add: startCell_def)
  next
    case (Some v)
    then have kd: "?k \<in> dom m" by auto
    with Cons.prems(5) Some have v: "v = card {s \<in> dom m. s \<le> ?k}" by auto
    have "{s \<in> dom m. s \<le> ?k} = dom m" using Cons.prems(3) by auto
    moreover have "insert ?k (dom m) = dom m" using kd by auto
    ultimately have head: "v = card {s \<in> dom m \<union> startCell ` set (pw # xs). s \<le> ?k}"
      unfolding below using v by simp
    have p3: "\<forall>k \<in> dom m. \<forall>x \<in> set xs. k \<le> startCell x" using Cons.prems(3) by simp
    have u: "dom m \<union> startCell ` set xs = dom m \<union> startCell ` set (pw # xs)" using kd by auto
    have rest: "\<forall>q \<in> set (numberLoop xs m n).
           number q = card {s \<in> dom m \<union> startCell ` set (pw # xs). s \<le> startCell q}"
      using Cons.IH [OF sorted Cons.prems(2) p3 Cons.prems(4,5)] unfolding u .
    from Some rest head show ?thesis by (simp add: startCell_def)
  qed
qed

lemma isCandidate_pure:
  assumes "wfGrid (cells st)" and "inGrid lc"
  shows "isCandidate st ctw ch lc =
           Inr (letter (cells st ! fst lc ! snd lc) = [ch] \<and> lc \<notin> usedCells st
                \<and> \<not> (\<exists>wi \<in> set (ctw lc). wi \<in> usedWords st))"
  using assms by (simp add: isCandidate_def cellAt_wf inGrid_def)

lemma isFallbackCandidate_pure:
  assumes "wfGrid (cells st)" and "inGrid lc"
  shows "isFallbackCandidate st ch lc =
           Inr (letter (cells st ! fst lc ! snd lc) = [ch] \<and> lc \<notin> usedCells st)"
  using assms by (simp add: isFallbackCandidate_def cellAt_wf inGrid_def)

lemma claimCell_result:
  assumes "wfGrid (cells st)" and "inGrid lc" and "letter (cells st ! fst lc ! snd lc) = [ch]"
  shows "\<exists>st'. claimCell st ctw i lc = Inr st' \<and> draws st' = draws st
           \<and> claimedAt (cells st) (cells st') lc i ch
           \<and> assigned st' = assigned st @ [\<lparr>sc_row = fst lc, sc_col = snd lc, sc_index = i\<rparr>]
           \<and> usedCells st' = insert lc (usedCells st)"
proof -
  let ?f = "\<lambda>cell. cell\<lparr>isSolutionCell := True, solutionIndex := Some i\<rparr>"
  from assms(2) have inb: "fst lc < GRID_SIZE" "snd lc < GRID_SIZE" by (simp_all add: inGrid_def)
  note m = modifyCell_wf [OF assms(1) inb, of ?f]
  note r = modifyCell_result [OF assms(1) m]
  let ?cg = "(cells st)[fst lc := (cells st ! fst lc)[snd lc := ?f (cells st ! fst lc ! snd lc)]]"
  have "claimedAt (cells st) ?cg lc i ch"
    unfolding claimedAt_def
  proof (intro conjI allI impI)
    show "wfGrid ?cg" by (rule r(1))
    show "?cg ! r ! c = cells st ! r ! c" if "r < GRID_SIZE" "c < GRID_SIZE" "(r, c) \<noteq> lc" for r c
      using r(4) [OF that(1,2)] that(3) by (cases lc) auto
    show "?cg ! fst lc ! snd lc
          = (cells st ! fst lc ! snd lc)\<lparr>isSolutionCell := True, solutionIndex := Some i, letter := [ch]\<rparr>"
      using r(4) [OF inb] assms(3) by simp
  qed
  then show ?thesis by (simp add: claimCell_def m)
qed

lemma overwriteCell_result:
  assumes "wfGrid (cells st)" and "inGrid lc"
  shows "\<exists>st'. overwriteCell st ch i lc = Inr st' \<and> draws st' = draws st
           \<and> claimedAt (cells st) (cells st') lc i ch
           \<and> assigned st' = assigned st @ [\<lparr>sc_row = fst lc, sc_col = snd lc, sc_index = i\<rparr>]
           \<and> usedCells st' = insert lc (usedCells st)"
proof -
  let ?f = "\<lambda>cell. cell\<lparr>isSolutionCell := True, solutionIndex := Some i, letter := [ch]\<rparr>"
  from assms(2) have inb: "fst lc < GRID_SIZE" "snd lc < GRID_SIZE" by (simp_all add: inGrid_def)
  note m = modifyCell_wf [OF assms(1) inb, of ?f]
  note r = modifyCell_result [OF assms(1) m]
  let ?cg = "(cells st)[fst lc := (cells st ! fst lc)[snd lc := ?f (cells st ! fst lc ! snd lc)]]"
  have "claimedAt (cells st) ?cg lc i ch"
    unfolding claimedAt_def
  proof (intro conjI allI impI)
    show "wfGrid ?cg" by (rule r(1))
    show "?cg ! r ! c = cells st ! r ! c" if "r < GRID_SIZE" "c < GRID_SIZE" "(r, c) \<noteq> lc" for r c
      using r(4) [OF that(1,2)] that(3) by (cases lc) auto
    show "?cg ! fst lc ! snd lc
          = (cells st ! fst lc ! snd lc)\<lparr>isSolutionCell := True, solutionIndex := Some i, letter := [ch]\<rparr>"
      using r(4) [OF inb] by simp
  qed
  then show ?thesis by (simp add: overwriteCell_def m)
qed

lemma solutionStep_after_shuffles:
  assumes wf: "wfGrid (cells st)" and grid: "\<forall>lc \<in> set lcs. inGrid lc"
    and sh1: "shuffle rng (draws st) lcs = Inr (sh, pos1)"
    and sh2: "filter (\<lambda>lc. letter (cells st ! fst lc ! snd lc) = [ch] \<and> lc \<notin> usedCells st
                \<and> \<not> (\<exists>wi \<in> set (ctw lc). wi \<in> usedWords st)) sh = [] \<Longrightarrow>
              shuffle rng pos1 lcs = Inr (sh', pos2)"
  shows "\<exists>st'. solutionStep rng lcs ctw i ch st = Inr st' \<and> stepOutcome lcs i ch st st'
           \<and> draws st' = (if filter (\<lambda>lc. letter (cells st ! fst lc ! snd lc) = [ch] \<and> lc \<notin> usedCells st
                \<and> \<not> (\<exists>wi \<in> set (ctw lc). wi \<in> usedWords st)) sh = [] then pos2 else pos1)"
proof -
  let ?cand = "\<lambda>lc. letter (cells st ! fst lc ! snd lc) = [ch] \<and> lc \<notin> usedCells st
                \<and> \<not> (\<exists>wi \<in> set (ctw lc). wi \<in> usedWords st)"
  let ?fcand = "\<lambda>lc. letter (cells st ! fst lc ! snd lc) = [ch] \<and> lc \<notin> usedCells st"
  from shuffle_result [OF sh1] have set1: "set sh = set lcs" by simp
  have f1: "filterE (isCandidate st ctw ch) sh = Inr (filter ?cand sh)"
    by (rule filterE_pure) (use set1 grid isCandidate_pure [OF wf] in auto)
  show ?thesis
  proof (cases "filter ?cand sh")
    case (Cons chosen rest)
    then have "chosen \<in> set (filter ?cand sh)" by simp
    then have c: "chosen \<in> set lcs" "?cand chosen" using set1 by auto
    let ?st = "st\<lparr>draws := pos1\<rparr>"
    from claimCell_result [of ?st chosen ch ctw i] wf grid c obtain st' where
      st': "claimCell ?st ctw i chosen = Inr st'" "draws st' = pos1"
      "claimedAt (cells st) (cells st') chosen i ch"
      "assigned st' = assigned st @ [\<lparr>sc_row = fst chosen, sc_col = snd chosen, sc_index = i\<rparr>]"
      "usedCells st' = insert chosen (usedCells st)"
      by auto
    have "solutionStep rng lcs ctw i ch st = Inr st'"
      using sh1 f1 Cons st'(1) by (simp add: solutionStep_def)
    moreover have "stepOutcome lcs i ch st st'"
      unfolding stepOutcome_def using c st'(3,4,5) by blast
    ultimately show ?thesis using st'(2) Cons by simp
  next
    case Nil
    note s2 = sh2 [OF Nil]
    from shuffle_result [OF s2] have set2: "set sh' = set lcs" by simp
    have f2: "filterE (isFallbackCandidate st ch) sh' = Inr (filter ?fcand sh')"
      by (rule filterE_pure) (use set2 grid isFallbackCandidate_pure [OF wf] in auto)
    show ?thesis
    proof (cases "filter ?fcand sh'")
      case (Cons chosen rest)
      then have "chosen \<in> set (filter ?fcand sh')" by simp
      then have c: "chosen \<in> set lcs" "?fcand chosen" using set2 by auto
      let ?st = "st\<lparr>draws := pos2\<rparr>"
      from claimCell_result [of ?st chosen ch ctw i] wf grid c obtain st' where
        st': "claimCell ?st ctw i chosen = Inr st'" "draws st' = pos2"
        "claimedAt (cells st) (cells st') chosen i ch"
        "assigned st' = assigned st @ [\<lparr>sc_row = fst chosen, sc_col = snd chosen, sc_index = i\<rparr>]"
        "usedCells st' = insert chosen (usedCells st)"
        by auto
      have "solutionStep rng lcs ctw i ch st = Inr st'"
        using sh1 f1 Nil s2 f2 Cons st'(1) by (simp add: solutionStep_def)
      moreover have "stepOutcome lcs i ch st st'"
        unfolding stepOutcome_def using c st'(3,4,5) by blast
      ultimately show ?thesis using st'(2) Nil by simp
    next
      case none: Nil
      then have nomatch: "\<forall>k \<in> set lcs. k \<notin> usedCells st \<longrightarrow> letter (cells st ! fst k ! snd k) \<noteq> [ch]"
        using set2 by (auto simp: filter_empty_conv)
      show ?thesis
      proof (cases "find (\<lambda>lc. lc \<notin> usedCells st) lcs")
        case None
        then have all: "\<forall>lc \<in> set lcs. lc \<in> usedCells st" by (auto simp: find_None_iff)
        have "solutionStep rng lcs ctw i ch st = Inr (st\<lparr>draws := pos2\<rparr>)"
          using sh1 f1 Nil s2 f2 none None by (simp add: solutionStep_def)
        moreover have "stepOutcome lcs i ch st (st\<lparr>draws := pos2\<rparr>)"
          unfolding stepOutcome_def using all by simp
        ultimately show ?thesis using Nil by simp
      next
        case (Some anyCell)
        then have a: "anyCell \<in> set lcs" "anyCell \<notin> usedCells st"
          by (auto simp: find_Some_iff)
        let ?st = "st\<lparr>draws := pos2\<rparr>"
        from overwriteCell_result [of ?st anyCell ch i] wf grid a obtain st' where
          st': "overwriteCell ?st ch i anyCell = Inr st'" "draws st' = pos2"
          "claimedAt (cells st) (cells st') anyCell i ch"
          "assigned st' = assigned st @ [\<lparr>sc_row = fst anyCell, sc_col = snd anyCell, sc_index = i\<rparr>]"
          "usedCells st' = insert anyCell (usedCells st)"
          by auto
        have "solutionStep rng lcs ctw i ch st = Inr st'"
          using sh1 f1 Nil s2 f2 none Some st'(1) by (simp add: solutionStep_def)
        moreover have "stepOutcome lcs i ch st st'"
          unfolding stepOutcome_def using a st'(3,4,5) nomatch Some by blast
        ultimately show ?thesis using st'(2) Nil by simp
      qed
    qed
  qed
qed

lemma solutionStep_outcome:
  assumes wf: "wfGrid (cells st)" and grid: "\<forall>lc \<in> set lcs. inGrid lc"
    and run: "solutionStep rng lcs ctw i ch st = Inr st'"
  shows "stepOutcome lcs i ch st st'"
proof -
  let ?cand = "\<lambda>lc. letter (cells st ! fst lc ! snd lc) = [ch] \<and> lc \<notin> usedCells st
                \<and> \<not> (\<exists>wi \<in> set (ctw lc). wi \<in> usedWords st)"
  from run obtain sh pos1 where sh1: "shuffle rng (draws st) lcs = Inr (sh, pos1)"
    by (auto simp: solutionStep_def split: sum.splits)
  from shuffle_result [OF sh1] have set1: "set sh = set lcs" by simp
  have f1: "filterE (isCandidate st ctw ch) sh = Inr (filter ?cand sh)"
    by (rule filterE_pure) (use set1 grid isCandidate_pure [OF wf] in auto)
  show ?thesis
  proof (cases "filter ?cand sh = []")
    case False
    from solutionStep_after_shuffles [OF wf grid sh1, where ctw = ctw and ch = ch and i = i] False run
    show ?thesis by auto
  next
    case True
    with run sh1 f1 obtain sh' pos2 where sh2: "shuffle rng pos1 lcs = Inr (sh', pos2)"
      by (auto simp: solutionStep_def split: sum.splits)
    from solutionStep_after_shuffles [OF wf grid sh1 sh2, where ctw = ctw and ch = ch and i = i] run
    show ?thesis by auto
  qed
qed

lemma solutionStep_total:
  assumes wf: "wfGrid (cells st)" and grid: "\<forall>lc \<in> set lcs. inGrid lc" and rng: "rngOk rng"
  shows "\<exists>st'. solutionStep rng lcs ctw i ch st = Inr st'"
proof -
  from shuffle_total [OF rng, of "draws st" lcs] obtain sh where
    sh1: "shuffle rng (draws st) lcs = Inr (sh, draws st + (length lcs - 1))" by blast
  from shuffle_total [OF rng, of "draws st + (length lcs - 1)" lcs] obtain sh' where
    sh2: "shuffle rng (draws st + (length lcs - 1)) lcs
            = Inr (sh', draws st + (length lcs - 1) + (length lcs - 1))" by blast
  from solutionStep_after_shuffles [OF wf grid sh1 sh2, where ctw = ctw and ch = ch and i = i]
  show ?thesis by blast
qed

lemma claimedAt_sameField:
  assumes "claimedAt cg cg' lc i ch"
    and "\<And>x b n l. h (x\<lparr>isSolutionCell := b, solutionIndex := n, letter := l\<rparr>) = h x"
  shows "sameField h cg cg'"
  unfolding sameField_def
proof (intro allI impI)
  fix r c assume rc: "r < GRID_SIZE" "c < GRID_SIZE"
  show "h (cg' ! r ! c) = h (cg ! r ! c)"
  proof (cases "(r, c) = lc")
    case True
    then have "fst lc = r" "snd lc = c" by auto
    with assms show ?thesis by (simp add: claimedAt_def)
  next
    case False
    with assms(1) rc show ?thesis by (simp add: claimedAt_def)
  qed
qed

lemma stepOutcome_sameField:
  assumes "stepOutcome lcs i ch st st'"
    and "\<And>x b n l. h (x\<lparr>isSolutionCell := b, solutionIndex := n, letter := l\<rparr>) = h x"
  shows "sameField h (cells st) (cells st')"
  using assms(1) claimedAt_sameField [OF _ assms(2)]
  by (auto simp: stepOutcome_def sameField_refl)

lemma stepOutcome_wf:
  assumes "stepOutcome lcs i ch st st'" and "wfGrid (cells st)"
  shows "wfGrid (cells st')"
  using assms by (auto simp: stepOutcome_def claimedAt_def)

lemma solInv_step:
  assumes inv: "solInv lcs w st i" and grid: "\<forall>lc \<in> set lcs. inGrid lc" and dist: "distinct lcs"
    and out: "stepOutcome lcs i (w ! i) st st'"
  shows "solInv lcs w st' (Suc i)"
proof -
  from inv have wf: "wfGrid (cells st)"
    and used: "usedCells st = posOf ` set (assigned st)"
    and dpos: "distinct (map posOf (assigned st))"
    and sorted: "sorted_wrt (<) (map sc_index (assigned st))"
    and below: "\<forall>sc \<in> set (assigned st). sc_index sc < i"
    and sub: "posOf ` set (assigned st) \<subseteq> set lcs"
    and flags: "\<forall>r < GRID_SIZE. \<forall>c < GRID_SIZE.
            (isSolutionCell (cells st ! r ! c) \<longleftrightarrow> (r, c) \<in> usedCells st)
            \<and> ((r, c) \<notin> usedCells st \<longrightarrow> solutionIndex (cells st ! r ! c) = None)"
    and vals: "\<forall>sc \<in> set (assigned st).
            solutionIndex (cells st ! sc_row sc ! sc_col sc) = Some (sc_index sc)
            \<and> letter (cells st ! sc_row sc ! sc_col sc) = [w ! sc_index sc]"
    and len: "length (assigned st) = min i (length lcs)"
    by (simp_all add: solInv_def)
  have cardu: "card (usedCells st) = length (assigned st)"
    unfolding used using dpos by (metis distinct_card length_map list.set_map)
  from out have
    "(\<exists>lc. lc \<in> set lcs \<and> lc \<notin> usedCells st
        \<and> claimedAt (cells st) (cells st') lc i (w ! i)
        \<and> assigned st' = assigned st @ [\<lparr>sc_row = fst lc, sc_col = snd lc, sc_index = i\<rparr>]
        \<and> usedCells st' = insert lc (usedCells st))
     \<or> ((\<forall>lc \<in> set lcs. lc \<in> usedCells st) \<and> cells st' = cells st
        \<and> assigned st' = assigned st \<and> usedCells st' = usedCells st)"
    unfolding stepOutcome_def by blast
  then show ?thesis
  proof
    assume idle: "(\<forall>lc \<in> set lcs. lc \<in> usedCells st) \<and> cells st' = cells st
        \<and> assigned st' = assigned st \<and> usedCells st' = usedCells st"
    with sub used have "usedCells st = set lcs" by auto
    with cardu dist have "length (assigned st) = length lcs" by (simp add: distinct_card)
    with len have "min (Suc i) (length lcs) = length (assigned st)" by simp
    with inv idle below show ?thesis
      by (auto simp: solInv_def less_Suc_eq)
  next
    assume "\<exists>lc. lc \<in> set lcs \<and> lc \<notin> usedCells st
        \<and> claimedAt (cells st) (cells st') lc i (w ! i)
        \<and> assigned st' = assigned st @ [\<lparr>sc_row = fst lc, sc_col = snd lc, sc_index = i\<rparr>]
        \<and> usedCells st' = insert lc (usedCells st)"
    then obtain lc where chosen: "lc \<in> set lcs" "lc \<notin> usedCells st"
      "claimedAt (cells st) (cells st') lc i (w ! i)"
      "assigned st' = assigned st @ [\<lparr>sc_row = fst lc, sc_col = snd lc, sc_index = i\<rparr>]"
      "usedCells st' = insert lc (usedCells st)" by blast
    let ?new = "\<lparr>sc_row = fst lc, sc_col = snd lc, sc_index = i\<rparr>"
    from chosen(3) have wf': "wfGrid (cells st')"
      and others: "\<And>r c. r < GRID_SIZE \<Longrightarrow> c < GRID_SIZE \<Longrightarrow> (r, c) \<noteq> lc \<Longrightarrow> cells st' ! r ! c = cells st ! r ! c"
      and here: "cells st' ! fst lc ! snd lc
          = (cells st ! fst lc ! snd lc)\<lparr>isSolutionCell := True, solutionIndex := Some i, letter := [w ! i]\<rparr>"
      by (simp_all add: claimedAt_def)
    from grid chosen(1) have lcg: "fst lc < GRID_SIZE" "snd lc < GRID_SIZE" by (simp_all add: inGrid_def)
    have pnew: "posOf ?new = lc" by (simp add: posOf_def)
    have used': "usedCells st' = posOf ` set (assigned st')"
      using chosen(4,5) used pnew by simp
    have dpos': "distinct (map posOf (assigned st'))"
      using chosen(2,4) dpos used pnew by simp
    have sorted': "sorted_wrt (<) (map sc_index (assigned st'))"
      using chosen(4) sorted below by (simp add: sorted_wrt_append)
    have below': "\<forall>sc \<in> set (assigned st'). sc_index sc < Suc i"
      using chosen(4) below by (auto simp: less_Suc_eq)
    have sub': "posOf ` set (assigned st') \<subseteq> set lcs"
      using chosen(1,4) sub pnew by simp
    have flags': "\<forall>r < GRID_SIZE. \<forall>c < GRID_SIZE.
            (isSolutionCell (cells st' ! r ! c) \<longleftrightarrow> (r, c) \<in> usedCells st')
            \<and> ((r, c) \<notin> usedCells st' \<longrightarrow> solutionIndex (cells st' ! r ! c) = None)"
    proof (intro allI impI)
      fix r c assume rc: "r < GRID_SIZE" "c < GRID_SIZE"
      show "(isSolutionCell (cells st' ! r ! c) \<longleftrightarrow> (r, c) \<in> usedCells st')
            \<and> ((r, c) \<notin> usedCells st' \<longrightarrow> solutionIndex (cells st' ! r ! c) = None)"
      proof (cases "(r, c) = lc")
        case True
        then have "fst lc = r" "snd lc = c" by auto
        with here chosen(5) True show ?thesis by simp
      next
        case False
        with others [OF rc] flags rc chosen(5) show ?thesis by auto
      qed
    qed
    have vals': "\<forall>sc \<in> set (assigned st').
            solutionIndex (cells st' ! sc_row sc ! sc_col sc) = Some (sc_index sc)
            \<and> letter (cells st' ! sc_row sc ! sc_col sc) = [w ! sc_index sc]"
    proof
      fix sc assume sc: "sc \<in> set (assigned st')"
      show "solutionIndex (cells st' ! sc_row sc ! sc_col sc) = Some (sc_index sc)
            \<and> letter (cells st' ! sc_row sc ! sc_col sc) = [w ! sc_index sc]"
      proof (cases "sc \<in> set (assigned st)")
        case True
        then have p: "posOf sc \<in> usedCells st" using used by simp
        with chosen(2) have ne: "(sc_row sc, sc_col sc) \<noteq> lc" by (auto simp: posOf_def)
        from p sub used grid have "inGrid (posOf sc)" by auto
        then have "sc_row sc < GRID_SIZE" "sc_col sc < GRID_SIZE" by (simp_all add: inGrid_def posOf_def)
        from others [OF this ne] vals True show ?thesis by simp
      next
        case False
        with sc chosen(4) have "sc = ?new" by simp
        with here show ?thesis by simp
      qed
    qed
    have len': "length (assigned st') = min (Suc i) (length lcs)"
    proof -
      have "usedCells st \<subset> set lcs" using chosen(1,2) sub used by auto
      then have "card (usedCells st) < card (set lcs)" by (intro psubset_card_mono) simp_all
      with cardu dist have "length (assigned st) < length lcs" by (simp add: distinct_card)
      with len chosen(4) show ?thesis by simp
    qed
    from wf' used' dpos' sorted' below' sub' flags' vals' len' show ?thesis
      unfolding solInv_def by blast
  qed
qed

lemma solutionLoop_result:
  assumes grid: "\<forall>lc \<in> set lcs. inGrid lc" and dist: "distinct lcs"
  shows "solutionLoop rng lcs ctw i rest st = Inr st' \<Longrightarrow> solInv lcs w st i \<Longrightarrow> rest = drop i w \<Longrightarrow>
         i \<le> length w \<Longrightarrow>
         solInv lcs w st' (length w) \<and> sameField cell_number (cells st) (cells st')
         \<and> sameField isBlack (cells st) (cells st')"
proof (induction rest arbitrary: i st)
  case Nil
  then have "i = length w" by simp
  moreover from Nil have "st' = st" by simp
  ultimately show ?case using Nil.prems(2) by (simp add: sameField_refl)
next
  case (Cons ch rest)
  from Cons.prems(3) have "drop i w \<noteq> []" by auto
  then have i: "i < length w" by simp
  from Cons_nth_drop_Suc [OF i] Cons.prems(3) have "ch # rest = w ! i # drop (Suc i) w" by simp
  then have ch: "ch = w ! i" and rest: "rest = drop (Suc i) w" by simp_all
  from Cons.prems(2) have wf: "wfGrid (cells st)" by (simp add: solInv_def)
  from Cons.prems(1) obtain st1 where one: "solutionStep rng lcs ctw i ch st = Inr st1"
    and more: "solutionLoop rng lcs ctw (Suc i) rest st1 = Inr st'"
    by (auto split: sum.splits)
  from solutionStep_outcome [OF wf grid one] have out: "stepOutcome lcs i (w ! i) st st1"
    by (simp add: ch)
  from solInv_step [OF Cons.prems(2) grid dist out] have inv1: "solInv lcs w st1 (Suc i)" .
  from i have "Suc i \<le> length w" by simp
  from Cons.IH [OF more inv1 rest this]
    stepOutcome_sameField [OF out, of cell_number] stepOutcome_sameField [OF out, of isBlack]
  show ?case by (auto intro: sameField_trans)
qed

lemma solutionLoop_total:
  assumes grid: "\<forall>lc \<in> set lcs. inGrid lc" and rng: "rngOk rng"
  shows "wfGrid (cells st) \<Longrightarrow> \<exists>st'. solutionLoop rng lcs ctw i rest st = Inr st'"
proof (induction rest arbitrary: i st)
  case Nil
  show ?case by simp
next
  case (Cons ch rest)
  from solutionStep_total [OF Cons.prems grid rng, of ctw i ch] obtain st1 where
    one: "solutionStep rng lcs ctw i ch st = Inr st1" ..
  from stepOutcome_wf [OF solutionStep_outcome [OF Cons.prems grid one] Cons.prems]
  have "wfGrid (cells st1)" .
  from Cons.IH [OF this, of "i + 1"] one show ?case by simp
qed

lemma gridCells_set: "set gridCells = {k. inGrid k}"
  by (auto simp: gridCells_def inGrid_def)

lemma gridCells_distinct: "distinct gridCells"
  unfolding gridCells_def
  by (rule distinct_concat) (auto simp: distinct_map inj_on_def)

lemma letterCellsOf_wf:
  assumes "wfGrid cg"
  shows "letterCellsOf cg = Inr (letterCellList cg)"
proof -
  have inner: "filterE (\<lambda>rc. case cellAt cg (fst rc) (snd rc) of
                                     Inl e \<Rightarrow> Inl e
                                   | Inr cell \<Rightarrow> Inr (\<not> isBlack cell))
                        (map (\<lambda>c. (r, c)) [0..<GRID_SIZE])
               = Inr (filter (\<lambda>rc. \<not> isBlack (cg ! fst rc ! snd rc)) (map (\<lambda>c. (r, c)) [0..<GRID_SIZE]))"
    if "r < GRID_SIZE" for r
    by (rule filterE_pure) (use that in \<open>auto simp: cellAt_wf [OF assms]\<close>)
  have "mapE (\<lambda>r. filterE (\<lambda>rc. case cellAt cg (fst rc) (snd rc) of
                                     Inl e \<Rightarrow> Inl e
                                   | Inr cell \<Rightarrow> Inr (\<not> isBlack cell))
                        (map (\<lambda>c. (r, c)) [0..<GRID_SIZE]))
             [0..<GRID_SIZE]
        = Inr (map (\<lambda>r. filter (\<lambda>rc. \<not> isBlack (cg ! fst rc ! snd rc)) (map (\<lambda>c. (r, c)) [0..<GRID_SIZE]))
                 [0..<GRID_SIZE])"
    by (rule mapE_pure) (simp add: inner)
  then show ?thesis
    by (simp add: letterCellsOf_def letterCellList_def gridCells_def filter_concat comp_def)
qed

lemma letterCellList_grid: "\<forall>lc \<in> set (letterCellList cg). inGrid lc"
  by (simp add: letterCellList_def gridCells_set)

lemma letterCellList_distinct: "distinct (letterCellList cg)"
  by (simp add: letterCellList_def gridCells_distinct)

lemma letterCellList_sameField:
  assumes "sameField isBlack cg cg'"
  shows "letterCellList cg' = letterCellList cg"
  unfolding letterCellList_def
  by (rule filter_cong) (use assms in \<open>auto simp: gridCells_set inGrid_def sameField_def\<close>)

lemma rowMajorLe_le: "rowMajorLe k k' \<longleftrightarrow> k \<le> k'"
  by (auto simp: rowMajorLe_def less_eq_prod_def)

lemma numberClues_numbered: "cluesNumbered (numberClues placed)"
proof -
  let ?sorted = "sort_key startCell placed"
  let ?ws = "numberLoop ?sorted Map.empty 1"
  have key: "(\<lambda>pw. (row pw, col pw)) = startCell" by (simp add: startCell_def fun_eq_iff)
  have ws: "numberClues placed = ?ws" by (simp add: numberClues_def sortByPosition_def key)
  have srt: "sorted (map startCell ?sorted)" by simp
  have starts: "map startCell ?ws = map startCell ?sorted" by (rule numberLoop_map_start)
  then have sset: "startCell ` set ?ws = startCell ` set ?sorted"
    by (metis list.set_map)
  have eq: "dom (Map.empty :: nat \<times> nat \<Rightarrow> nat option) \<union> startCell ` set ?sorted = startCell ` set ?ws"
    unfolding sset by simp
  note R = numberLoop_rank [OF srt, of Map.empty 1]
  have "\<forall>pw \<in> set ?ws. number pw
          = card {s \<in> dom (Map.empty :: nat \<times> nat \<Rightarrow> nat option) \<union> startCell ` set ?sorted. s \<le> startCell pw}"
    by (rule R) simp_all
  then have rank: "\<forall>pw \<in> set ?ws. number pw = card {s \<in> startCell ` set ?ws. rowMajorLe s (startCell pw)}"
    unfolding eq rowMajorLe_le .
  have "sorted_wrt rowMajorLe (map startCell ?ws)"
    using srt unfolding starts by (simp add: rowMajorLe_le [abs_def])
  moreover from rank have "\<forall>pw \<in> set ?ws. \<forall>q \<in> set ?ws. startCell pw = startCell q \<longrightarrow> number pw = number q"
    by simp
  ultimately show ?thesis unfolding ws cluesNumbered_def using rank by blast
qed

lemma generatePuzzle_overlay:
  assumes "generatePuzzleDraws wordPool solutionWords rng = Inr (p, n)"
  obtains st where
    "solInv (letterCellList (grid p)) (solutionWord p) st (length (solutionWord p))"
    and "cells st = grid p" and "assigned st = solutionCells p"
    and "\<forall>r < GRID_SIZE. \<forall>c < GRID_SIZE.
           cell_number (grid p ! r ! c) = smallestOf (startNumbers (placedWords p) (r, c))"
proof -
  from assms obtain placed bestGrid pos cg0 cellGrid letterCells st where
    att: "attempts 8 rng 1 wordPool [] createEmptyGrid = Inr ((placed, bestGrid), pos)"
    and build: "buildCellGrid bestGrid = Inr cg0"
    and refs: "foldE setClueRefs (numberClues placed) cg0 = Inr cellGrid"
    and lcs: "letterCellsOf cellGrid = Inr letterCells"
    and loop: "solutionLoop rng letterCells (cellToWords (numberClues placed)) 0
           (solutionWords ! randomInt rng 0 (length solutionWords))
           \<lparr>cells = cellGrid, assigned = [], usedCells = {}, usedWords = {}, draws = pos\<rparr> = Inr st"
    and p: "p = \<lparr>grid = cells st, placedWords = numberClues placed,
              solutionWord = solutionWords ! randomInt rng 0 (length solutionWords),
              solutionCells = assigned st\<rparr>"
    by (rule generatePuzzleDraws_parts)
  let ?w = "solutionWords ! randomInt rng 0 (length solutionWords)"
  let ?st0 = "\<lparr>cells = cellGrid, assigned = [], usedCells = {}, usedWords = {}, draws = pos\<rparr>"
  from attempts_result [OF layoutOk_empty att] have "wfGrid bestGrid" by (simp add: layoutOk_def)
  note b = buildCellGrid_result [OF this build]
  from clueRefs_fold_result [OF b(1) refs] have wf: "wfGrid cellGrid"
    and sol: "sameField isSolutionCell cg0 cellGrid" and idx: "sameField solutionIndex cg0 cellGrid"
    and num: "\<forall>r < GRID_SIZE. \<forall>c < GRID_SIZE.
               cell_number (cellGrid ! r ! c)
                 = fold lowerNumber (startNumbers (numberClues placed) (r, c)) (cell_number (cg0 ! r ! c))"
    by simp_all
  from lcs have lc: "letterCells = letterCellList cellGrid" by (simp add: letterCellsOf_wf [OF wf])
  have inv0: "solInv letterCells ?w ?st0 0"
    using wf sol idx b(2) by (simp add: solInv_def sameField_def mkCell_def)
  have grid: "\<forall>k \<in> set letterCells. inGrid k" unfolding lc by (rule letterCellList_grid)
  have dist: "distinct letterCells" unfolding lc by (rule letterCellList_distinct)
  from solutionLoop_result [OF grid dist loop inv0] have
    inv: "solInv letterCells ?w st (length ?w)"
    and cn: "sameField cell_number cellGrid (cells st)"
    and bl: "sameField isBlack cellGrid (cells st)"
    by simp_all
  from letterCellList_sameField [OF bl] lc have lc': "letterCells = letterCellList (cells st)" by simp
  have nums: "\<forall>r < GRID_SIZE. \<forall>c < GRID_SIZE.
           cell_number (cells st ! r ! c) = smallestOf (startNumbers (numberClues placed) (r, c))"
    using num cn b(2) by (simp add: sameField_def mkCell_def fold_lowerNumber_None)
  show ?thesis
    by (rule that [of st]) (use inv lc' nums p in simp_all)
qed

lemma generatePuzzleDraws_total:
  assumes "rngOk rng" and "solutionWords \<noteq> []"
  shows "\<exists>p n. generatePuzzleDraws wordPool solutionWords rng = Inr (p, n)"
proof -
  from attempts_total [OF assms(1), of 8 1 wordPool "[]" createEmptyGrid] obtain placed g pos where
    att: "attempts 8 rng 1 wordPool [] createEmptyGrid = Inr ((placed, g), pos)" by blast
  from attempts_result [OF layoutOk_empty att] have ok: "layoutOk g placed" by simp
  from sameLayout_layoutOk [OF sameLayout_numberClues ok] have ok': "layoutOk g (numberClues placed)" .
  then have wfg: "wfGrid g" and fit: "allFit (numberClues placed)" and st: "startsInGrid (numberClues placed)"
    by (simp_all add: layoutOk_def)
  note build = buildCellGrid_wf [OF wfg]
  note b = buildCellGrid_result [OF wfg build]
  from clueRefs_fold_total [OF b(1) fit st] obtain cellGrid where
    refs: "foldE setClueRefs (numberClues placed)
             (map (\<lambda>r. map (\<lambda>c. mkCell (g ! r ! c)) [0..<GRID_SIZE]) [0..<GRID_SIZE]) = Inr cellGrid" ..
  from clueRefs_fold_result [OF b(1) refs] have wf: "wfGrid cellGrid" by simp
  note lcs = letterCellsOf_wf [OF wf]
  have k: "randomInt rng 0 (length solutionWords) < length solutionWords"
    using assms by (intro randomInt_less) simp_all
  let ?st0 = "\<lparr>cells = cellGrid, assigned = [], usedCells = {}, usedWords = {}, draws = pos\<rparr>"
  have "wfGrid (cells ?st0)" using wf by simp
  from solutionLoop_total [OF letterCellList_grid assms(1) this,
      of cellGrid "cellToWords (numberClues placed)" 0
         "solutionWords ! randomInt rng 0 (length solutionWords)"]
  obtain st where loop: "solutionLoop rng (letterCellList cellGrid) (cellToWords (numberClues placed)) 0
          (solutionWords ! randomInt rng 0 (length solutionWords)) ?st0 = Inr st" ..
  show ?thesis
    using att build refs lcs k loop by (simp add: generatePuzzleDraws_def Let_def)
qed

lemma generatePuzzle_total:
  assumes "rngOk rng" and "solutionWords \<noteq> []"
  shows "\<exists>p. generatePuzzle wordPool solutionWords rng = Inr p"
  using generatePuzzleDraws_total [OF assms, of wordPool] by (auto simp: generatePuzzle_def)

section \<open>Properties of the returned puzzle\<close>

lemma generatePuzzle_solutionCovered:
  assumes "generatePuzzle wordPool solutionWords rng = Inr p"
  shows "solutionCovered p"
proof -
  from assms obtain n where "generatePuzzleDraws wordPool solutionWords rng = Inr (p, n)"
    by (auto simp: generatePuzzle_draws)
  then obtain st where inv: "solInv (letterCellList (grid p)) (solutionWord p) st (length (solutionWord p))"
    and c: "cells st = grid p" and a: "assigned st = solutionCells p"
    by (rule generatePuzzle_overlay)
  from inv have len: "length (assigned st) = min (length (solutionWord p)) (length (letterCellList (grid p)))"
    and sub: "posOf ` set (assigned st) \<subseteq> set (letterCellList (grid p))"
    and below: "\<forall>sc \<in> set (assigned st). sc_index sc < length (solutionWord p)"
    and vals: "\<forall>sc \<in> set (assigned st).
            solutionIndex (cells st ! sc_row sc ! sc_col sc) = Some (sc_index sc)
            \<and> letter (cells st ! sc_row sc ! sc_col sc) = [solutionWord p ! sc_index sc]"
    by (simp_all add: solInv_def)
  from sub letterCellList_grid have "\<forall>sc \<in> set (assigned st). inGrid (posOf sc)" by blast
  with len below vals show ?thesis unfolding solutionCovered_def a [symmetric] c [symmetric] by blast
qed

lemma generatePuzzle_overlayConsistent:
  assumes "generatePuzzle wordPool solutionWords rng = Inr p"
  shows "overlayConsistent p"
proof -
  from assms obtain n where "generatePuzzleDraws wordPool solutionWords rng = Inr (p, n)"
    by (auto simp: generatePuzzle_draws)
  then obtain st where inv: "solInv (letterCellList (grid p)) (solutionWord p) st (length (solutionWord p))"
    and c: "cells st = grid p" and a: "assigned st = solutionCells p"
    by (rule generatePuzzle_overlay)
  from inv show ?thesis
    unfolding overlayConsistent_def solInv_def a c by blast
qed

lemma generatePuzzle_numbered:
  assumes "generatePuzzle wordPool solutionWords rng = Inr p"
  shows "cluesNumbered (placedWords p) \<and> cellNumbersSmallest p"
proof -
  from assms obtain n where run: "generatePuzzleDraws wordPool solutionWords rng = Inr (p, n)"
    by (auto simp: generatePuzzle_draws)
  then obtain placed where "placedWords p = numberClues placed"
    by (rule generatePuzzleDraws_parts) simp
  then have "cluesNumbered (placedWords p)" by (simp add: numberClues_numbered)
  moreover from run have "cellNumbersSmallest p"
    unfolding cellNumbersSmallest_def by (rule generatePuzzle_overlay)
  ultimately show ?thesis by simp
qed

section \<open>Two concrete runs\<close>

lemma rngOk_zeroRng: "rngOk zeroRng"
  by (simp add: rngOk_def zeroRng_def)

lemma short_run: "generatePuzzle shortPool helloWords zeroRng = Inr shortPuzzle"
proof -
  have "helloWords \<noteq> []" by (simp add: helloWords_def)
  from generatePuzzle_total [OF rngOk_zeroRng this, of shortPool]
  show ?thesis by (auto simp: shortPuzzle_def)
qed

lemma long_run: "generatePuzzle longPool tenWords zeroRng = Inr longPuzzle"
proof -
  have "tenWords \<noteq> []" by (simp add: tenWords_def)
  from generatePuzzle_total [OF rngOk_zeroRng this, of longPool]
  show ?thesis by (auto simp: longPuzzle_def)
qed

lemma short_eval:
  "map_sum id (\<lambda>p. (placedWords p, solutionWord p, solutionCells p, letterCellList (grid p),
       map (\<lambda>k. letter (grid p ! fst k ! snd k)) (letterCellList (grid p))))
     (generatePuzzle shortPool helloWords zeroRng)
   = Inr ([\<lparr>word = ''AB'', clue = [], row = 7, col = 6, direction = Across, number = 1\<rparr>],
          ''HELLO'',
          [\<lparr>sc_row = 7, sc_col = 6, sc_index = 0\<rparr>, \<lparr>sc_row = 7, sc_col = 7, sc_index = 1\<rparr>],
          [(7, 6), (7, 7)], [''H'', ''E''])"
  by code_simp

lemma short_facts:
  "placedWords shortPuzzle = [\<lparr>word = ''AB'', clue = [], row = 7, col = 6, direction = Across, number = 1\<rparr>]"
  "solutionWord shortPuzzle = ''HELLO''"
  "solutionCells shortPuzzle = [\<lparr>sc_row = 7, sc_col = 6, sc_index = 0\<rparr>, \<lparr>sc_row = 7, sc_col = 7, sc_index = 1\<rparr>]"
  "letterCellList (grid shortPuzzle) = [(7, 6), (7, 7)]"
  "letter (grid shortPuzzle ! 7 ! 6) = ''H''"
  "letter (grid shortPuzzle ! 7 ! 7) = ''E''"
  using short_eval unfolding short_run by auto

text \<open>
  Claim C3 (as stated): for every returned puzzle the list of solution cells is as long as the
  solution word.  This fails on a grid with fewer letter cells than the solution word has
  letters: with the one-word pool AB and the solution word HELLO only two letters find a cell.
\<close>

theorem solutionCells_shorter_than_word:
  "generatePuzzle shortPool helloWords zeroRng = Inr shortPuzzle
   \<and> shortPool \<noteq> [] \<and> helloWords \<noteq> []
   \<and> solutionWord shortPuzzle = ''HELLO''
   \<and> length (solutionWord shortPuzzle) = 5
   \<and> length (solutionCells shortPuzzle) = 2"
proof -
  have "shortPool \<noteq> []" "helloWords \<noteq> []"
    by (simp_all add: shortPool_def helloWords_def)
  then show ?thesis by (simp add: short_run short_facts)
qed

text \<open>
  Claim C3 (amended): for every returned puzzle the number of solution cells is the smaller of
  the length of the solution word and the number of letter cells of the grid, and every entry
  lies in the grid, has an index below the length of the solution word, and its grid cell holds
  the letter of the solution word at that index.
\<close>

theorem solution_cells_cover_word:
  assumes "generatePuzzle wordPool solutionWords rng = Inr p"
  shows "solutionCovered p"
  using assms by (rule generatePuzzle_solutionCovered)

theorem solution_cells_cover_word_witness:
  "generatePuzzle shortPool helloWords zeroRng = Inr shortPuzzle \<and> solutionCovered shortPuzzle
   \<and> length (solutionCells shortPuzzle) = min 5 2"
  using solution_cells_cover_word [OF short_run] by (simp add: short_run short_facts)

text \<open>
  Claim C4: in every returned puzzle the placed words are listed in row-major order of their
  start cells, the number of a word is the rank of its start cell among the distinct start
  cells (so the numbers run 1, 2, 3, ... in row-major order and words with the same start cell
  carry the same number), and the number of a grid cell is the smallest number among the words
  starting there, or none if no word starts there.
\<close>

theorem clue_numbers_row_major:
  assumes "generatePuzzle wordPool solutionWords rng = Inr p"
  shows "cluesNumbered (placedWords p) \<and> cellNumbersSmallest p"
  using assms by (rule generatePuzzle_numbered)

theorem clue_numbers_row_major_witness:
  "generatePuzzle longPool tenWords zeroRng = Inr longPuzzle
   \<and> cluesNumbered (placedWords longPuzzle) \<and> cellNumbersSmallest longPuzzle"
  using clue_numbers_row_major [OF long_run] by (simp add: long_run)

text \<open>
  Claim C10: in every returned puzzle the solution cells are pairwise distinct grid cells listed
  with strictly increasing index, a grid cell is marked as a solution cell exactly when it
  occurs in that list, its solution index is then the recorded index, and every other cell has
  no solution index.
\<close>

theorem solution_overlay_consistent:
  assumes "generatePuzzle wordPool solutionWords rng = Inr p"
  shows "overlayConsistent p"
  using assms by (rule generatePuzzle_overlayConsistent)

theorem solution_overlay_consistent_witness:
  "generatePuzzle shortPool helloWords zeroRng = Inr shortPuzzle \<and> overlayConsistent shortPuzzle
   \<and> map posOf (solutionCells shortPuzzle) = [(7, 6), (7, 7)]
   \<and> map sc_index (solutionCells shortPuzzle) = [0, 1]"
  using solution_overlay_consistent [OF short_run] by (simp add: short_run short_facts posOf_def)

theorem generatePuzzle_crossword_legal_witness:
  "generatePuzzle longPool tenWords zeroRng = Inr longPuzzle \<and> crosswordLegal (placedWords longPuzzle)"
  using generatePuzzle_crossword_legal [OF long_run] by (simp add: long_run)

section \<open>The generator always returns\<close>

lemma placeEntry_length:
  "placeEntry e g placed = Inr (g', placed') \<Longrightarrow> length placed' \<le> length placed + 1"
  by (auto simp: placeEntry_def split: sum.splits option.splits if_splits)

lemma placeRest_length:
  "placeRest es g placed = Inr (g', placed') \<Longrightarrow> length placed' \<le> length placed + length es"
proof (induction es arbitrary: g placed)
  case Nil
  then show ?case by simp
next
  case (Cons e es)
  show ?case
  proof (cases "length placed < 28")
    case False
    with Cons.prems show ?thesis by simp
  next
    case True
    with Cons.prems obtain g1 p1 where
      one: "placeEntry e g placed = Inr (g1, p1)" and rest: "placeRest es g1 p1 = Inr (g', placed')"
      by (auto split: sum.splits)
    from placeEntry_length [OF one] Cons.IH [OF rest] show ?thesis by simp
  qed
qed

lemma placeFirst_length:
  "placeFirst shuffled = Inr (g, placed) \<Longrightarrow> length placed + length (drop 1 shuffled) \<le> length shuffled"
  by (cases shuffled) (auto simp: placeFirst_def Let_def split: sum.splits)

lemma runAttempt_length:
  assumes "runAttempt rng pos wordPool = Inr ((g, placed), pos')"
  shows "length placed \<le> length wordPool"
proof -
  from assms obtain sh p1 where sh: "shuffle rng pos wordPool = Inr (sh, p1)"
    by (auto simp: runAttempt_def split: sum.splits)
  let ?shuffled = "filter (\<lambda>w. length (entry_word w) \<le> GRID_SIZE) sh"
  from assms sh obtain g0 p0 where first: "placeFirst ?shuffled = Inr (g0, p0)"
    and rest: "placeRest (drop 1 ?shuffled) g0 p0 = Inr (g, placed)"
    by (auto simp: runAttempt_def Let_def split: sum.splits)
  from placeFirst_length [OF first] placeRest_length [OF rest]
  have "length placed \<le> length ?shuffled" by simp
  also have "\<dots> \<le> length sh" by (rule length_filter_le)
  also from shuffle_result [OF sh] have "\<dots> = length wordPool" by simp
  finally show ?thesis .
qed

lemma attempts_length:
  "attempts k rng pos wordPool bestPlaced bestGrid = Inr ((placed, g), pos') \<Longrightarrow>
   length bestPlaced \<le> length wordPool \<Longrightarrow> length placed \<le> length wordPool"
proof (induction k arbitrary: pos bestPlaced bestGrid)
  case 0
  then show ?case by simp
next
  case (Suc k)
  from Suc.prems(1) obtain g1 p1 pos1 where
    one: "runAttempt rng pos wordPool = Inr ((g1, p1), pos1)"
    by (auto split: sum.splits)
  note r = runAttempt_length [OF one]
  show ?case
  proof (cases "length p1 > length bestPlaced")
    case True
    with Suc.prems(1) one have "attempts k rng pos1 wordPool p1 g1 = Inr ((placed, g), pos')" by simp
    from Suc.IH [OF this r] show ?thesis .
  next
    case False
    with Suc.prems(1) one have "attempts k rng pos1 wordPool bestPlaced bestGrid = Inr ((placed, g), pos')"
      by simp
    from Suc.IH [OF this Suc.prems(2)] show ?thesis .
  qed
qed

lemma sameLayout_length: "sameLayout xs ys \<Longrightarrow> length ys = length xs"
proof -
  assume sl: "sameLayout xs ys"
  have "numberFree (\<lambda>_. True)" by (simp add: numberFree_def)
  with sl have "length (filter (\<lambda>_. True) ys) = length (filter (\<lambda>_. True) xs)"
    unfolding sameLayout_def by blast
  then show ?thesis by simp
qed

lemma generatePuzzle_length:
  assumes "generatePuzzle wordPool solutionWords rng = Inr p"
  shows "length (placedWords p) \<le> length wordPool"
proof -
  from assms obtain n where "generatePuzzleDraws wordPool solutionWords rng = Inr (p, n)"
    by (auto simp: generatePuzzle_draws)
  then obtain placed bestGrid pos where
    att: "attempts 8 rng 1 wordPool [] createEmptyGrid = Inr ((placed, bestGrid), pos)"
    and p: "placedWords p = numberClues placed"
    by (rule generatePuzzleDraws_parts) simp
  from attempts_length [OF att] have "length placed \<le> length wordPool" by simp
  moreover from sameLayout_numberClues [of placed] have "length (numberClues placed) = length placed"
    by (rule sameLayout_length)
  ultimately show ?thesis using p by simp
qed

lemma attempts_const:
  assumes "\<And>pos. runAttempt rng pos wordPool = Inr ((g, placed), pos + d)"
  shows "attempts k rng pos wordPool bestPlaced bestGrid
           = Inr ((if 0 < k \<and> length bestPlaced < length placed then (placed, g)
                   else (bestPlaced, bestGrid)), pos + k * d)"
proof (induction k arbitrary: pos bestPlaced bestGrid)
  case 0
  show ?case by simp
next
  case (Suc k)
  show ?case by (simp add: assms Suc.IH add.assoc)
qed

lemma shuffle_zero_two: "shuffle zeroRng pos [a, b] = Inr ([b, a], pos + 1)"
  by (simp add: shuffle_def randomInt_def zeroRng_def Let_def numeral_2_eq_2)

lemma skip_first: "placeFirst [mkEntry ''GRID'', mkEntry ''PUZZLE''] = Inr (skipGrid, skipPlaced)"
  by code_simp

lemma skip_entry: "placeEntry (mkEntry ''PUZZLE'') skipGrid skipPlaced = Inr (skipGrid, skipPlaced)"
  by code_simp

lemma skip_attempt: "runAttempt zeroRng pos skipPool = Inr ((skipGrid, skipPlaced), pos + 1)"
proof -
  have "filter (\<lambda>w. length (entry_word w) \<le> GRID_SIZE) [mkEntry ''GRID'', mkEntry ''PUZZLE'']
          = [mkEntry ''GRID'', mkEntry ''PUZZLE'']"
    by (simp add: mkEntry_def GRID_SIZE_def)
  moreover have "length skipPlaced < 28" by (simp add: skipPlaced_def)
  ultimately show ?thesis
    by (simp add: runAttempt_def skipPool_def shuffle_zero_two skip_first skip_entry)
qed

lemma skip_attempts:
  "attempts 8 zeroRng 1 skipPool [] createEmptyGrid = Inr ((skipPlaced, skipGrid), 9)"
  using attempts_const [of zeroRng skipPool skipGrid skipPlaced 1 8 1 "[]" createEmptyGrid, OF skip_attempt]
  by (simp add: skipPlaced_def)

lemma skip_run: "generatePuzzle skipPool helloWords zeroRng = Inr skipPuzzle"
proof -
  have "helloWords \<noteq> []" by (simp add: helloWords_def)
  from generatePuzzle_total [OF rngOk_zeroRng this, of skipPool]
  show ?thesis by (auto simp: skipPuzzle_def)
qed

lemma skip_placed: "length (placedWords skipPuzzle) = 1"
proof -
  from skip_run obtain n where "generatePuzzleDraws skipPool helloWords zeroRng = Inr (skipPuzzle, n)"
    by (auto simp: generatePuzzle_draws)
  then show ?thesis
  proof (rule generatePuzzleDraws_parts)
    fix placed bestGrid pos and st :: SolState
    assume att: "attempts 8 zeroRng 1 skipPool [] createEmptyGrid = Inr ((placed, bestGrid), pos)"
      and p: "skipPuzzle = \<lparr>grid = cells st, placedWords = numberClues placed,
                solutionWord = helloWords ! randomInt zeroRng 0 (length helloWords),
                solutionCells = assigned st\<rparr>"
    from att have "placed = skipPlaced" unfolding skip_attempts by simp
    moreover from arg_cong [OF p, of placedWords]
    have "placedWords skipPuzzle = numberClues placed" by simp
    ultimately show ?thesis
      using sameLayout_length [OF sameLayout_numberClues, of skipPlaced]
      by (simp add: skipPlaced_def)
  qed
qed

text \<open>
  Claim C7: when the random source yields numbers in [0, 1) and the solution list is not
  empty, generatePuzzle returns a puzzle.  In this model every array access outside the bounds
  and every use of an undefined value is an error result, so a returned puzzle means that all
  indices evaluated on the way were in bounds.  The returned puzzle never has more placed
  words than the pool has entries, and it may have fewer.
\<close>

theorem generatePuzzle_always_returns:
  assumes "rngOk rng" and "wordPool \<noteq> []" and "solutionWords \<noteq> []"
  shows "\<exists>p. generatePuzzle wordPool solutionWords rng = Inr p
             \<and> length (placedWords p) \<le> length wordPool"
proof -
  from generatePuzzle_total [OF assms(1,3)] obtain p where
    p: "generatePuzzle wordPool solutionWords rng = Inr p" by blast
  with generatePuzzle_length [OF p] show ?thesis by blast
qed

theorem generatePuzzle_always_returns_witness:
  "rngOk zeroRng \<and> skipPool \<noteq> [] \<and> helloWords \<noteq> []
   \<and> generatePuzzle skipPool helloWords zeroRng = Inr skipPuzzle
   \<and> length (placedWords skipPuzzle) = 1 \<and> length skipPool = 2"
proof -
  have ne: "skipPool \<noteq> []" "helloWords \<noteq> []" and two: "length skipPool = 2"
    by (simp_all add: skipPool_def helloWords_def)
  from generatePuzzle_always_returns [OF rngOk_zeroRng ne] obtain p where
    "generatePuzzle skipPool helloWords zeroRng = Inr p" by blast
  then have "generatePuzzle skipPool helloWords zeroRng = Inr skipPuzzle"
    by (simp add: skipPuzzle_def)
  with ne two rngOk_zeroRng skip_placed show ?thesis by simp
qed

section \<open>The last resort of the solution assignment\<close>

lemma lastResort_step:
  assumes wf: "wfGrid (cells st)" and grid: "\<forall>lc \<in> set lcs. inGrid lc" and rng: "rngOk rng"
    and nomatch: "\<forall>k \<in> set lcs. k \<notin> usedCells st \<longrightarrow> letter (cells st ! fst k ! snd k) \<noteq> [ch]"
  shows "\<exists>st'. solutionStep rng lcs ctw i ch st = Inr st'
           \<and> (case find (\<lambda>k. k \<notin> usedCells st) lcs of
                 Some lc \<Rightarrow>
                   lc \<in> set lcs \<and> lc \<notin> usedCells st
                   \<and> letter (cells st ! fst lc ! snd lc) \<noteq> [ch]
                   \<and> letter (cells st' ! fst lc ! snd lc) = [ch]
                   \<and> (\<forall>r < GRID_SIZE. \<forall>c < GRID_SIZE.
                         (r, c) \<noteq> lc \<longrightarrow> cells st' ! r ! c = cells st ! r ! c)
               | None \<Rightarrow> cells st' = cells st)"
proof -
  from solutionStep_total [OF wf grid rng] obtain st' where
    run: "solutionStep rng lcs ctw i ch st = Inr st'" by blast
  note out = solutionStep_outcome [OF wf grid run]
  show ?thesis
  proof (cases "find (\<lambda>k. k \<notin> usedCells st) lcs")
    case None
    then have all: "\<forall>lc \<in> set lcs. lc \<in> usedCells st" unfolding find_None_iff by blast
    with out have "cells st' = cells st" unfolding stepOutcome_def by blast
    with run None show ?thesis by simp
  next
    case (Some lc)
    then have lc: "lc \<in> set lcs" "lc \<notin> usedCells st"
      by (auto simp: find_Some_iff)
    with nomatch have old: "letter (cells st ! fst lc ! snd lc) \<noteq> [ch]" by blast
    from lc have notall: "\<not> (\<forall>k \<in> set lcs. k \<in> usedCells st)" by blast
    with out obtain lc' where lc': "lc' \<in> set lcs" "lc' \<notin> usedCells st"
      and cl: "claimedAt (cells st) (cells st') lc' i ch"
      and how: "letter (cells st ! fst lc' ! snd lc') = [ch]
                \<or> find (\<lambda>k. k \<notin> usedCells st) lcs = Some lc'"
      unfolding stepOutcome_def by blast
    from lc' nomatch have "letter (cells st ! fst lc' ! snd lc') \<noteq> [ch]" by blast
    with how Some have eq: "lc' = lc" by simp
    from cl have "letter (cells st' ! fst lc ! snd lc) = [ch]"
      and "\<forall>r < GRID_SIZE. \<forall>c < GRID_SIZE. (r, c) \<noteq> lc \<longrightarrow> cells st' ! r ! c = cells st ! r ! c"
      unfolding claimedAt_def eq by simp_all
    with run Some lc old show ?thesis by simp
  qed
qed

lemma wfGrid_shortPuzzle: "wfGrid (grid shortPuzzle)"
  using generatePuzzle_overlayConsistent [OF short_run] by (simp add: overlayConsistent_def)

text \<open>
  Claim C8 (as stated): whenever no unclaimed cell holds the solution letter, exactly one cell
  is overwritten with it.  This fails when no unclaimed letter cell is left.  With the
  one-word pool AB and the solution word HELLO the two letter cells are claimed by H and E;
  for the third letter, L, the last resort is reached, finds no cell and changes nothing.
\<close>

theorem lastResort_without_free_cell:
  "generatePuzzle shortPool helloWords zeroRng = Inr shortPuzzle
   \<and> letterCellList (grid shortPuzzle) = [(7, 6), (7, 7)]
   \<and> map posOf (solutionCells shortPuzzle) = [(7, 6), (7, 7)]
   \<and> letter (grid shortPuzzle ! 7 ! 6) = ''H'' \<and> letter (grid shortPuzzle ! 7 ! 7) = ''E''
   \<and> map_sum id cells
        (solutionStep zeroRng [(7, 6), (7, 7)] (cellToWords (placedWords shortPuzzle)) 2 CHR ''L'' fullState)
       = Inr (cells fullState)"
proof -
  have wf: "wfGrid (cells fullState)" by (simp add: fullState_def wfGrid_shortPuzzle)
  have grid: "\<forall>lc \<in> set [(7, 6), (7, 7)]. inGrid lc" by (simp add: inGrid_def GRID_SIZE_def)
  have used: "\<forall>lc \<in> set [(7, 6), (7, 7)]. lc \<in> usedCells fullState" by (simp add: fullState_def)
  from solutionStep_total [OF wf grid rngOk_zeroRng] obtain st' where
    run: "solutionStep zeroRng [(7, 6), (7, 7)] (cellToWords (placedWords shortPuzzle)) 2 CHR ''L'' fullState
            = Inr st'" by blast
  from solutionStep_outcome [OF wf grid run] used have "cells st' = cells fullState"
    unfolding stepOutcome_def by blast
  with run show ?thesis by (simp add: short_run short_facts posOf_def)
qed

text \<open>
  Claim C8 (amended): if no unclaimed letter cell holds the solution letter, the step returns,
  and either an unclaimed letter cell exists: then the first of them in the order of the list
  (row-major) gets the solution letter, which it did not hold before, and every other cell of
  the grid is left as it was; or none exists: then no cell of the grid changes.
\<close>

theorem lastResort_overwrites_first_free_cell:
  assumes "wfGrid (cells st)" and "\<forall>lc \<in> set lcs. inGrid lc" and "rngOk rng"
    and "\<forall>k \<in> set lcs. k \<notin> usedCells st \<longrightarrow> letter (cells st ! fst k ! snd k) \<noteq> [ch]"
  shows "\<exists>st'. solutionStep rng lcs ctw i ch st = Inr st'
           \<and> (case find (\<lambda>k. k \<notin> usedCells st) lcs of
                 Some lc \<Rightarrow>
                   lc \<in> set lcs \<and> lc \<notin> usedCells st
                   \<and> letter (cells st ! fst lc ! snd lc) \<noteq> [ch]
                   \<and> letter (cells st' ! fst lc ! snd lc) = [ch]
                   \<and> (\<forall>r < GRID_SIZE. \<forall>c < GRID_SIZE.
                         (r, c) \<noteq> lc \<longrightarrow> cells st' ! r ! c = cells st ! r ! c)
               | None \<Rightarrow> cells st' = cells st)"
  using assms by (rule lastResort_step)

theorem lastResort_overwrites_first_free_cell_witness:
  "wfGrid (cells freshState) \<and> rngOk zeroRng
   \<and> letter (cells freshState ! 7 ! 6) = ''H'' \<and> letter (cells freshState ! 7 ! 7) = ''E''
   \<and> find (\<lambda>k. k \<notin> usedCells freshState) [(7, 6), (7, 7)] = Some (7, 6)
   \<and> (\<exists>st'. solutionStep zeroRng [(7, 6), (7, 7)] (\<lambda>_. []) 0 CHR ''L'' freshState = Inr st'
          \<and> letter (cells st' ! 7 ! 6) = ''L''
          \<and> cells st' ! 7 ! 7 = cells freshState ! 7 ! 7)"
proof -
  have wf: "wfGrid (cells freshState)" by (simp add: freshState_def wfGrid_shortPuzzle)
  have grid: "\<forall>lc \<in> set [(7, 6), (7, 7)]. inGrid lc" by (simp add: inGrid_def GRID_SIZE_def)
  have letters: "letter (cells freshState ! 7 ! 6) = ''H''" "letter (cells freshState ! 7 ! 7) = ''E''"
    by (simp_all add: freshState_def short_facts)
  then have nomatch: "\<forall>k \<in> set [(7, 6), (7, 7)]. k \<notin> usedCells freshState
                        \<longrightarrow> letter (cells freshState ! fst k ! snd k) \<noteq> ''L''"
    by simp
  have first: "find (\<lambda>k. k \<notin> usedCells freshState) [(7, 6), (7, 7)] = Some (7, 6)"
    by (simp add: freshState_def)
  from lastResort_overwrites_first_free_cell [OF wf grid rngOk_zeroRng nomatch, of "\<lambda>_. []" 0]
  obtain st' where run: "solutionStep zeroRng [(7, 6), (7, 7)] (\<lambda>_. []) 0 CHR ''L'' freshState = Inr st'"
    and l: "letter (cells st' ! 7 ! 6) = ''L''"
    and o: "\<forall>r < GRID_SIZE. \<forall>c < GRID_SIZE. (r, c) \<noteq> (7, 6) \<longrightarrow> cells st' ! r ! c = cells freshState ! r ! c"
    unfolding first by auto
  from o have "cells st' ! 7 ! 7 = cells freshState ! 7 ! 7" by (simp add: GRID_SIZE_def)
  with wf letters first run l rngOk_zeroRng show ?thesis by blast
qed

section \<open>The result depends on the numbers drawn only\<close>

lemma sameDraws_sub: "sameDraws rng rng' a b \<Longrightarrow> a \<le> a' \<Longrightarrow> b' \<le> b \<Longrightarrow> sameDraws rng rng' a' b'"
  by (simp add: sameDraws_def)

lemma sameDraws_at: "sameDraws rng rng' a b \<Longrightarrow> a \<le> k \<Longrightarrow> k < b \<Longrightarrow> rng' k = rng k"
  by (simp add: sameDraws_def)

lemma shuffleLoop_sameDraws:
  "shuffleLoop rng pos k a = Inr (a', pos') \<Longrightarrow> sameDraws rng rng' pos pos' \<Longrightarrow>
   shuffleLoop rng' pos k a = Inr (a', pos')"
proof (induction k arbitrary: pos a)
  case 0
  then show ?case by simp
next
  case (Suc k)
  let ?j = "randomInt rng pos (Suc k + 1)"
  from Suc.prems(1) have inb: "Suc k < length a" "?j < length a"
    by (auto simp: Let_def split: if_splits)
  with Suc.prems(1) have rest: "shuffleLoop rng (pos + 1) k (a[Suc k := a ! ?j, ?j := a ! Suc k]) = Inr (a', pos')"
    by (simp add: Let_def)
  from shuffleLoop_result [OF Suc.prems(1)] have pos': "pos' = pos + Suc k" by simp
  with Suc.prems(2) have "rng' pos = rng pos" by (simp add: sameDraws_def)
  then have j: "randomInt rng' pos (Suc k + 1) = ?j" by (simp add: randomInt_def)
  from Suc.prems(2) have "sameDraws rng rng' (pos + 1) pos'" by (rule sameDraws_sub) simp_all
  from Suc.IH [OF rest this] inb j show ?case by (simp add: Let_def)
qed

lemma shuffle_sameDraws:
  "shuffle rng pos a = Inr (a', pos') \<Longrightarrow> sameDraws rng rng' pos pos' \<Longrightarrow>
   shuffle rng' pos a = Inr (a', pos')"
  unfolding shuffle_def by (rule shuffleLoop_sameDraws)

lemma runAttempt_sameDraws:
  assumes "runAttempt rng pos wordPool = Inr (res, pos')" and "sameDraws rng rng' pos pos'"
  shows "runAttempt rng' pos wordPool = Inr (res, pos')"
proof -
  from assms(1) obtain sh p1 where sh: "shuffle rng pos wordPool = Inr (sh, p1)"
    by (auto simp: runAttempt_def split: sum.splits)
  with assms(1) have p1: "p1 = pos'"
    by (auto simp: runAttempt_def Let_def split: sum.splits)
  from shuffle_sameDraws [OF sh] assms(2) p1 have "shuffle rng' pos wordPool = Inr (sh, p1)" by simp
  with sh assms(1) show ?thesis by (simp add: runAttempt_def)
qed

lemma runAttempt_draws: "runAttempt rng pos wordPool = Inr (res, pos') \<Longrightarrow> pos \<le> pos'"
  using runAttempt_result [of rng pos wordPool "fst res" "snd res" pos'] by simp

lemma attempts_draws:
  "attempts k rng pos wordPool bestPlaced bestGrid = Inr (res, pos') \<Longrightarrow> pos \<le> pos'"
proof (induction k arbitrary: pos bestPlaced bestGrid)
  case 0
  then show ?case by simp
next
  case (Suc k)
  from Suc.prems obtain g1 p1 pos1 where
    one: "runAttempt rng pos wordPool = Inr ((g1, p1), pos1)"
    by (auto split: sum.splits)
  from Suc.prems one have "attempts k rng pos1 wordPool p1 g1 = Inr (res, pos')
      \<or> attempts k rng pos1 wordPool bestPlaced bestGrid = Inr (res, pos')"
    by (simp split: if_splits)
  with Suc.IH have "pos1 \<le> pos'" by blast
  with runAttempt_draws [OF one] show ?case by simp
qed

lemma attempts_sameDraws:
  "attempts k rng pos wordPool bestPlaced bestGrid = Inr (res, pos') \<Longrightarrow>
   sameDraws rng rng' pos pos' \<Longrightarrow>
   attempts k rng' pos wordPool bestPlaced bestGrid = Inr (res, pos')"
proof (induction k arbitrary: pos bestPlaced bestGrid)
  case 0
  then show ?case by simp
next
  case (Suc k)
  from Suc.prems(1) obtain g1 p1 pos1 where
    one: "runAttempt rng pos wordPool = Inr ((g1, p1), pos1)"
    by (auto split: sum.splits)
  note lo = runAttempt_draws [OF one]
  show ?case
  proof (cases "length p1 > length bestPlaced")
    case True
    with Suc.prems(1) one have rest: "attempts k rng pos1 wordPool p1 g1 = Inr (res, pos')" by simp
    note hi = attempts_draws [OF rest]
    from Suc.prems(2) lo hi have "sameDraws rng rng' pos pos1" "sameDraws rng rng' pos1 pos'"
      by (auto elim: sameDraws_sub)
    from runAttempt_sameDraws [OF one this(1)] Suc.IH [OF rest this(2)] True
    show ?thesis by simp
  next
    case False
    with Suc.prems(1) one have rest: "attempts k rng pos1 wordPool bestPlaced bestGrid = Inr (res, pos')"
      by simp
    note hi = attempts_draws [OF rest]
    from Suc.prems(2) lo hi have "sameDraws rng rng' pos pos1" "sameDraws rng rng' pos1 pos'"
      by (auto elim: sameDraws_sub)
    from runAttempt_sameDraws [OF one this(1)] Suc.IH [OF rest this(2)] False
    show ?thesis by simp
  qed
qed

lemma claimCell_draws: "claimCell st ctw i lc = Inr st' \<Longrightarrow> draws st' = draws st"
  by (auto simp: claimCell_def split: sum.splits)

lemma overwriteCell_draws: "overwriteCell st ch i lc = Inr st' \<Longrightarrow> draws st' = draws st"
  by (auto simp: overwriteCell_def split: sum.splits)

lemma solutionStep_cases:
  assumes "solutionStep rng lcs ctw i ch st = Inr st'"
  obtains (strict) sh pos1 where "shuffle rng (draws st) lcs = Inr (sh, pos1)"
      and "draws st' = pos1"
      and "\<And>rng'. shuffle rng' (draws st) lcs = Inr (sh, pos1) \<Longrightarrow>
             solutionStep rng' lcs ctw i ch st = Inr st'"
  | (fallback) sh pos1 sh2 pos2 where "shuffle rng (draws st) lcs = Inr (sh, pos1)"
      and "shuffle rng pos1 lcs = Inr (sh2, pos2)" and "draws st' = pos2"
      and "\<And>rng'. shuffle rng' (draws st) lcs = Inr (sh, pos1) \<Longrightarrow>
             shuffle rng' pos1 lcs = Inr (sh2, pos2) \<Longrightarrow>
             solutionStep rng' lcs ctw i ch st = Inr st'"
proof -
  from assms obtain sh pos1 where sh1: "shuffle rng (draws st) lcs = Inr (sh, pos1)"
    by (auto simp: solutionStep_def split: sum.splits)
  with assms obtain cs where cs: "filterE (isCandidate st ctw ch) sh = Inr cs"
    by (auto simp: solutionStep_def split: sum.splits)
  show ?thesis
  proof (cases cs)
    case (Cons chosen rest)
    with assms sh1 cs have cl: "claimCell (st\<lparr>draws := pos1\<rparr>) ctw i chosen = Inr st'"
      by (simp add: solutionStep_def)
    from claimCell_draws [OF cl] have d: "draws st' = pos1" by simp
    have "solutionStep rng' lcs ctw i ch st = Inr st'"
      if "shuffle rng' (draws st) lcs = Inr (sh, pos1)" for rng'
      using that cs Cons cl by (simp add: solutionStep_def)
    with sh1 d show ?thesis by (rule strict)
  next
    case Nil
    with assms sh1 cs obtain sh2 pos2 where sh2: "shuffle rng pos1 lcs = Inr (sh2, pos2)"
      by (auto simp: solutionStep_def split: sum.splits)
    with assms sh1 cs Nil obtain fs where fs: "filterE (isFallbackCandidate st ch) sh2 = Inr fs"
      by (auto simp: solutionStep_def split: sum.splits)
    have d: "draws st' = pos2"
      using assms sh1 cs Nil sh2 fs claimCell_draws overwriteCell_draws
      by (cases fs) (auto simp: solutionStep_def split: option.splits)
    have "solutionStep rng' lcs ctw i ch st = Inr st'"
      if "shuffle rng' (draws st) lcs = Inr (sh, pos1)" "shuffle rng' pos1 lcs = Inr (sh2, pos2)" for rng'
      using that assms sh1 cs Nil sh2 fs by (simp add: solutionStep_def)
    with sh1 sh2 d show ?thesis by (rule fallback)
  qed
qed

lemma shuffle_draws: "shuffle rng pos a = Inr (a', pos') \<Longrightarrow> pos \<le> pos'"
  using shuffle_result [of rng pos a a' pos'] by simp

lemma solutionStep_draws:
  assumes "solutionStep rng lcs ctw i ch st = Inr st'"
  shows "draws st \<le> draws st'"
  using assms
proof (cases rule: solutionStep_cases)
  case (strict sh pos1)
  from shuffle_draws [OF strict(1)] strict(2) show ?thesis by simp
next
  case (fallback sh pos1 sh2 pos2)
  from shuffle_draws [OF fallback(1)] shuffle_draws [OF fallback(2)] fallback(3)
  show ?thesis by simp
qed

lemma solutionStep_sameDraws:
  assumes "solutionStep rng lcs ctw i ch st = Inr st'" and "sameDraws rng rng' (draws st) (draws st')"
  shows "solutionStep rng' lcs ctw i ch st = Inr st'"
  using assms(1)
proof (cases rule: solutionStep_cases)
  case (strict sh pos1)
  from shuffle_sameDraws [OF strict(1)] assms(2) strict(2)
  have "shuffle rng' (draws st) lcs = Inr (sh, pos1)" by simp
  then show ?thesis by (rule strict(3))
next
  case (fallback sh pos1 sh2 pos2)
  note lo = shuffle_draws [OF fallback(1)] and hi = shuffle_draws [OF fallback(2)]
  from assms(2) fallback(3) lo hi
  have "sameDraws rng rng' (draws st) pos1" "sameDraws rng rng' pos1 pos2"
    by (auto elim: sameDraws_sub)
  from shuffle_sameDraws [OF fallback(1) this(1)] shuffle_sameDraws [OF fallback(2) this(2)]
  show ?thesis by (rule fallback(4))
qed

lemma solutionLoop_draws:
  "solutionLoop rng lcs ctw i w st = Inr st' \<Longrightarrow> draws st \<le> draws st'"
proof (induction w arbitrary: i st)
  case Nil
  then show ?case by simp
next
  case (Cons ch w)
  from Cons.prems obtain st1 where one: "solutionStep rng lcs ctw i ch st = Inr st1"
    and rest: "solutionLoop rng lcs ctw (i + 1) w st1 = Inr st'"
    by (auto split: sum.splits)
  from solutionStep_draws [OF one] Cons.IH [OF rest] show ?case by simp
qed

lemma solutionLoop_sameDraws:
  "solutionLoop rng lcs ctw i w st = Inr st' \<Longrightarrow> sameDraws rng rng' (draws st) (draws st') \<Longrightarrow>
   solutionLoop rng' lcs ctw i w st = Inr st'"
proof (induction w arbitrary: i st)
  case Nil
  then show ?case by simp
next
  case (Cons ch w)
  from Cons.prems(1) obtain st1 where one: "solutionStep rng lcs ctw i ch st = Inr st1"
    and rest: "solutionLoop rng lcs ctw (i + 1) w st1 = Inr st'"
    by (auto split: sum.splits)
  note lo = solutionStep_draws [OF one] and hi = solutionLoop_draws [OF rest]
  from Cons.prems(2) lo hi
  have "sameDraws rng rng' (draws st) (draws st1)" "sameDraws rng rng' (draws st1) (draws st')"
    by (auto elim: sameDraws_sub)
  from solutionStep_sameDraws [OF one this(1)] Cons.IH [OF rest this(2)]
  show ?case by simp
qed

lemma generatePuzzleDraws_sameDraws:
  assumes run: "generatePuzzleDraws wordPool solutionWords rng = Inr (p, n)"
    and same: "sameDraws rng rng' 0 n"
  shows "generatePuzzleDraws wordPool solutionWords rng' = Inr (p, n)"
  using run
proof (rule generatePuzzleDraws_parts)
  fix placed bestGrid pos cg0 cellGrid letterCells and st :: SolState
  let ?k = "randomInt rng 0 (length solutionWords)"
  assume att: "attempts 8 rng 1 wordPool [] createEmptyGrid = Inr ((placed, bestGrid), pos)"
    and cg0: "buildCellGrid bestGrid = Inr cg0"
    and cg: "foldE setClueRefs (numberClues placed) cg0 = Inr cellGrid"
    and lcs: "letterCellsOf cellGrid = Inr letterCells"
    and k: "?k < length solutionWords"
    and loop: "solutionLoop rng letterCells (cellToWords (numberClues placed)) 0 (solutionWords ! ?k)
           \<lparr>cells = cellGrid, assigned = [], usedCells = {}, usedWords = {}, draws = pos\<rparr> = Inr st"
    and p: "p = \<lparr>grid = cells st, placedWords = numberClues placed,
              solutionWord = solutionWords ! ?k, solutionCells = assigned st\<rparr>"
    and n: "n = draws st"
  from attempts_draws [OF att] have lo: "1 \<le> pos" .
  from solutionLoop_draws [OF loop] have hi: "pos \<le> n" by (simp add: n)
  from same lo hi have "rng' 0 = rng 0" by (simp add: sameDraws_def)
  then have k': "randomInt rng' 0 (length solutionWords) = ?k" by (simp add: randomInt_def)
  from same lo hi have "sameDraws rng rng' 1 pos" by (auto elim: sameDraws_sub)
  from attempts_sameDraws [OF att this]
  have att': "attempts 8 rng' 1 wordPool [] createEmptyGrid = Inr ((placed, bestGrid), pos)" .
  from same lo hi n have "sameDraws rng rng'
      (draws \<lparr>cells = cellGrid, assigned = [], usedCells = {}, usedWords = {}, draws = pos\<rparr>) (draws st)"
    by (auto elim: sameDraws_sub)
  from solutionLoop_sameDraws [OF loop this]
  have loop': "solutionLoop rng' letterCells (cellToWords (numberClues placed)) 0 (solutionWords ! ?k)
           \<lparr>cells = cellGrid, assigned = [], usedCells = {}, usedWords = {}, draws = pos\<rparr> = Inr st" .
  from att' cg0 cg lcs k loop' p n show ?thesis
    by (simp add: generatePuzzleDraws_def k' Let_def)
qed

lemma short_draws_eval:
  "map_sum id snd (generatePuzzleDraws shortPool helloWords zeroRng) = Inr 11"
  by code_simp

lemma short_draws: "generatePuzzleDraws shortPool helloWords zeroRng = Inr (shortPuzzle, 11)"
proof -
  from short_run obtain n where n: "generatePuzzleDraws shortPool helloWords zeroRng = Inr (shortPuzzle, n)"
    by (auto simp: generatePuzzle_draws)
  with short_draws_eval show ?thesis by simp
qed

text \<open>
  Claim C9: the puzzle is determined by the word pool, the list of solution words and the
  random numbers the run draws.  If a run returns a puzzle after n draws, every run on the
  same pool and solution list whose random source gives the same first n numbers returns the
  same puzzle (grid, placed words, solution word and solution cells), after the same number of
  draws.
\<close>

theorem generatePuzzle_deterministic:
  assumes "generatePuzzleDraws wordPool solutionWords rng = Inr (p, n)"
    and "sameDraws rng rng' 0 n"
  shows "generatePuzzleDraws wordPool solutionWords rng' = Inr (p, n)
         \<and> generatePuzzle wordPool solutionWords rng = Inr p
         \<and> generatePuzzle wordPool solutionWords rng' = Inr p"
proof -
  from generatePuzzleDraws_sameDraws [OF assms]
  have "generatePuzzleDraws wordPool solutionWords rng' = Inr (p, n)" .
  with assms(1) show ?thesis by (simp add: generatePuzzle_def)
qed

theorem generatePuzzle_deterministic_witness:
  "generatePuzzleDraws shortPool helloWords zeroRng = Inr (shortPuzzle, 11)
   \<and> sameDraws zeroRng laterRng 0 11 \<and> laterRng 11 \<noteq> zeroRng 11
   \<and> generatePuzzleDraws shortPool helloWords laterRng = Inr (shortPuzzle, 11)
   \<and> generatePuzzle shortPool helloWords laterRng = Inr shortPuzzle"
proof -
  have same: "sameDraws zeroRng laterRng 0 11" and diff: "laterRng 11 \<noteq> zeroRng 11"
    by (simp_all add: sameDraws_def zeroRng_def laterRng_def)
  from generatePuzzle_deterministic [OF short_draws same] short_draws same diff
  show ?thesis by simp
qed

section \<open>One word of the placement loop\<close>

lemma legalAt_scanned:
  assumes "legalAt g w placed occupied p"
  shows "p \<in> set (scanPositions w)"
proof -
  obtain d r c where p: "p = (d, r, c)" by (cases p)
  with assms have "fitsInGrid (length w) r c d" by (simp add: legalAt_def canPlaceSpec_def)
  with p show ?thesis by (simp add: scanPositions_set)
qed

lemma chosenPlacement_bestOf:
  "bestOf (legalAt g w placed (getOccupied placed)) (scoreAt g w) (chosenPlacement g w placed)"
proof (cases "chosenPlacement g w placed")
  case None
  then have "\<forall>p \<in> set (scanPositions w). \<not> legalAt g w placed (getOccupied placed) p"
    by (simp add: chosenPlacement_def firstBest_None)
  with legalAt_scanned have "\<forall>p. \<not> legalAt g w placed (getOccupied placed) p" by blast
  with None show ?thesis by (simp add: bestOf_def)
next
  case (Some b)
  then have fb: "firstBest (legalAt g w placed (getOccupied placed)) (scoreAt g w) (scanPositions w) = Some b"
    by (simp add: chosenPlacement_def)
  note s = firstBest_Some [OF fb]
  have "scoreAt g w p \<le> scoreAt g w b \<and> (scoreAt g w p = scoreAt g w b \<longrightarrow> p = b \<or> scanBefore b p)"
    if legal: "legalAt g w placed (getOccupied placed) p" for p
  proof -
    note mem = legalAt_scanned [OF legal]
    with s(3) legal have le: "scoreAt g w p \<le> scoreAt g w b" by blast
    have "scanBefore b p" if "scoreAt g w p = scoreAt g w b" "p \<noteq> b"
      by (rule firstBest_first [OF fb scanPositions_sorted mem legal that])
    with le show ?thesis by blast
  qed
  with s(2) Some show ?thesis by (simp add: bestOf_def)
qed

lemma placeEntry_wordStep:
  assumes "wfGrid g"
  shows "\<exists>g' placed'. placeEntry e g placed = Inr (g', placed')
           \<and> wordStep e g placed (chosenPlacement g (entry_word e) placed) g' placed'"
proof (cases "chosenPlacement g (entry_word e) placed")
  case None
  with placeEntry_skip [OF assms, of e placed] show ?thesis by (simp add: wordStep_def)
next
  case (Some p)
  obtain d r c where p: "p = (d, r, c)" by (cases p)
  show ?thesis
  proof (cases "scoreAt g (entry_word e) p > 0")
    case True
    from placeEntry_commit [OF assms Some [unfolded p] True [unfolded p]] Some True p
    show ?thesis by (auto simp: wordStep_def)
  next
    case False
    with Some placeEntry_skip [OF assms, of e placed] show ?thesis by (simp add: wordStep_def)
  qed
qed

lemma placeRest_first_best:
  assumes "wfGrid g"
  shows "\<exists>best. findBestPlacement g (entry_word e) placed (getOccupied placed)
                 = Inr (map_option (toPlacement (scoreAt g (entry_word e))) best)
           \<and> bestOf (legalAt g (entry_word e) placed (getOccupied placed)) (scoreAt g (entry_word e)) best
           \<and> (if length placed < 28
              then \<exists>g' placed'. placeEntry e g placed = Inr (g', placed')
                     \<and> wordStep e g placed best g' placed'
                     \<and> placeRest (e # rest) g placed = placeRest rest g' placed'
              else placeRest (e # rest) g placed = Inr (g, placed))"
proof -
  let ?best = "chosenPlacement g (entry_word e) placed"
  from findBestPlacement_firstBest [OF assms, of "entry_word e" placed "getOccupied placed"]
  have 1: "findBestPlacement g (entry_word e) placed (getOccupied placed)
             = Inr (map_option (toPlacement (scoreAt g (entry_word e))) ?best)"
    by (simp add: chosenPlacement_def)
  note 2 = chosenPlacement_bestOf [of g "entry_word e" placed]
  from placeEntry_wordStep [OF assms, of e placed] obtain g' placed' where
    step: "placeEntry e g placed = Inr (g', placed')" "wordStep e g placed ?best g' placed'" by blast
  then have 3: "if length placed < 28
              then \<exists>g' placed'. placeEntry e g placed = Inr (g', placed')
                     \<and> wordStep e g placed ?best g' placed'
                     \<and> placeRest (e # rest) g placed = placeRest rest g' placed'
              else placeRest (e # rest) g placed = Inr (g, placed)"
    by simp
  from 1 2 3 show ?thesis by blast
qed

section \<open>An attempt that places 28 words\<close>

lemma randomInt_zeroRng: "randomInt zeroRng pos k = 0"
  by (simp add: randomInt_def zeroRng_def)

lemma shuffleLoop_zeroRng:
  "k \<le> length xs \<Longrightarrow>
   shuffleLoop zeroRng pos k (x # xs) = Inr (take k xs @ [x] @ drop k xs, pos + k)"
proof (induction k arbitrary: pos x xs)
  case 0
  show ?case by simp
next
  case (Suc k)
  then have k: "k < length xs" by simp
  have swap: "(x # xs)[Suc k := (x # xs) ! 0, 0 := (x # xs) ! Suc k] = xs ! k # xs[k := x]"
    by simp
  from k have "k \<le> length (xs[k := x])" by simp
  from Suc.IH [OF this, of "pos + 1" "xs ! k"]
  have "shuffleLoop zeroRng (pos + 1) k (xs ! k # xs[k := x])
          = Inr (take k xs @ [xs ! k] @ drop k (xs[k := x]), pos + 1 + k)"
    by simp
  moreover from k have "drop k (xs[k := x]) = x # drop (Suc k) xs"
    by (simp add: drop_update_swap [symmetric] Cons_nth_drop_Suc [symmetric] upd_conv_take_nth_drop)
  moreover from k have "take k xs @ [xs ! k] = take (Suc k) xs"
    by (simp add: take_Suc_conv_app_nth)
  ultimately have "shuffleLoop zeroRng (pos + 1) k (xs ! k # xs[k := x])
          = Inr (take (Suc k) xs @ [x] @ drop (Suc k) xs, pos + Suc k)"
    by simp
  with k swap show ?case by (simp add: randomInt_zeroRng Let_def del: list_update.simps)
qed

lemma shuffle_zeroRng: "shuffle zeroRng pos (x # xs) = Inr (xs @ [x], pos + length xs)"
  using shuffleLoop_zeroRng [of "length xs" xs pos x] by (simp add: shuffle_def)

lemma placeFirst_head: "placeFirst (e # es) = placeFirst [e]"
  by (simp add: placeFirst_def)

lemma cap_seed: "placeFirst [mkEntry ''SNAKE''] = Inr (capGridAt 1, capPlacedAt 1)"
  by code_simp

lemma cap_step_1:
  "placeEntry (mkEntry ''HARBOR'') (capGridAt 1) (capPlacedAt 1) = Inr (capGridAt 2, capPlacedAt 2)"
  by code_simp

lemma cap_step_2:
  "placeEntry (mkEntry ''WHALE'') (capGridAt 2) (capPlacedAt 2) = Inr (capGridAt 3, capPlacedAt 3)"
  by code_simp

lemma cap_step_3:
  "placeEntry (mkEntry ''BRIDGE'') (capGridAt 3) (capPlacedAt 3) = Inr (capGridAt 4, capPlacedAt 4)"
  by code_simp

lemma cap_step_4:
  "placeEntry (mkEntry ''OTTER'') (capGridAt 4) (capPlacedAt 4) = Inr (capGridAt 5, capPlacedAt 5)"
  by code_simp

lemma cap_step_5:
  "placeEntry (mkEntry ''SIGNAL'') (capGridAt 5) (capPlacedAt 5) = Inr (capGridAt 6, capPlacedAt 6)"
  by code_simp

lemma cap_step_6:
  "placeEntry (mkEntry ''ELK'') (capGridAt 6) (capPlacedAt 6) = Inr (capGridAt 7, capPlacedAt 7)"
  by code_simp

lemma cap_step_7:
  "placeEntry (mkEntry ''TON'') (capGridAt 7) (capPlacedAt 7) = Inr (capGridAt 8, capPlacedAt 8)"
  by code_simp

lemma cap_step_8:
  "placeEntry (mkEntry ''TWO'') (capGridAt 8) (capPlacedAt 8) = Inr (capGridAt 9, capPlacedAt 9)"
  by code_simp

lemma cap_step_9:
  "placeEntry (mkEntry ''ARIA'') (capGridAt 9) (capPlacedAt 9) = Inr (capGridAt 10, capPlacedAt 10)"
  by code_simp

lemma cap_step_10:
  "placeEntry (mkEntry ''MOON'') (capGridAt 10) (capPlacedAt 10) = Inr (capGridAt 11, capPlacedAt 11)"
  by code_simp

lemma cap_step_11:
  "placeEntry (mkEntry ''EASE'') (capGridAt 11) (capPlacedAt 11) = Inr (capGridAt 12, capPlacedAt 12)"
  by code_simp

lemma cap_step_12:
  "placeEntry (mkEntry ''ANSWER'') (capGridAt 12) (capPlacedAt 12) = Inr (capGridAt 13, capPlacedAt 13)"
  by code_simp

lemma cap_step_13:
  "placeEntry (mkEntry ''TERN'') (capGridAt 13) (capPlacedAt 13) = Inr (capGridAt 14, capPlacedAt 14)"
  by code_simp

lemma cap_step_14:
  "placeEntry (mkEntry ''ROSE'') (capGridAt 14) (capPlacedAt 14) = Inr (capGridAt 15, capPlacedAt 15)"
  by code_simp

lemma cap_step_15:
  "placeEntry (mkEntry ''PLANT'') (capGridAt 15) (capPlacedAt 15) = Inr (capGridAt 16, capPlacedAt 16)"
  by code_simp

lemma cap_step_16:
  "placeEntry (mkEntry ''GREEN'') (capGridAt 16) (capPlacedAt 16) = Inr (capGridAt 17, capPlacedAt 17)"
  by code_simp

lemma cap_step_17:
  "placeEntry (mkEntry ''SET'') (capGridAt 17) (capPlacedAt 17) = Inr (capGridAt 18, capPlacedAt 18)"
  by code_simp

lemma cap_step_18:
  "placeEntry (mkEntry ''BROWN'') (capGridAt 18) (capPlacedAt 18) = Inr (capGridAt 19, capPlacedAt 19)"
  by code_simp

lemma cap_step_19:
  "placeEntry (mkEntry ''ERA'') (capGridAt 19) (capPlacedAt 19) = Inr (capGridAt 20, capPlacedAt 20)"
  by code_simp

lemma cap_step_20:
  "placeEntry (mkEntry ''STONE'') (capGridAt 20) (capPlacedAt 20) = Inr (capGridAt 21, capPlacedAt 21)"
  by code_simp

lemma cap_step_21:
  "placeEntry (mkEntry ''TIN'') (capGridAt 21) (capPlacedAt 21) = Inr (capGridAt 22, capPlacedAt 22)"
  by code_simp

lemma cap_step_22:
  "placeEntry (mkEntry ''RIDDLE'') (capGridAt 22) (capPlacedAt 22) = Inr (capGridAt 23, capPlacedAt 23)"
  by code_simp

lemma cap_step_23:
  "placeEntry (mkEntry ''NEAR'') (capGridAt 23) (capPlacedAt 23) = Inr (capGridAt 24, capPlacedAt 24)"
  by code_simp

lemma cap_step_24:
  "placeEntry (mkEntry ''ONE'') (capGridAt 24) (capPlacedAt 24) = Inr (capGridAt 25, capPlacedAt 25)"
  by code_simp

lemma cap_step_25:
  "placeEntry (mkEntry ''ATE'') (capGridAt 25) (capPlacedAt 25) = Inr (capGridAt 26, capPlacedAt 26)"
  by code_simp

lemma cap_step_26:
  "placeEntry (mkEntry ''WEST'') (capGridAt 26) (capPlacedAt 26) = Inr (capGridAt 27, capPlacedAt 27)"
  by code_simp

lemma cap_step_27:
  "placeEntry (mkEntry ''MOSS'') (capGridAt 27) (capPlacedAt 27) = Inr (capGridAt 28, capPlacedAt 28)"
  by code_simp

lemma cap_best:
  "findBestPlacement (capGridAt 28) ''TEACHER'' (capPlacedAt 28) (getOccupied (capPlacedAt 28))
     = Inr (Some \<lparr>p_row = 1, p_col = 7, p_direction = Across, score = 21 / 4\<rparr>)"
  by code_simp

lemma length_capLayout: "length capLayout = 28"
  by (simp add: capLayout_def)

lemma length_capPlacedAt: "k \<le> 28 \<Longrightarrow> length (capPlacedAt k) = k"
  by (simp add: capPlacedAt_def length_capLayout)

lemmas cap_steps =
  cap_step_1 cap_step_2 cap_step_3 cap_step_4 cap_step_5 cap_step_6 cap_step_7 cap_step_8
  cap_step_9 cap_step_10 cap_step_11 cap_step_12 cap_step_13 cap_step_14 cap_step_15
  cap_step_16 cap_step_17 cap_step_18 cap_step_19 cap_step_20 cap_step_21 cap_step_22
  cap_step_23 cap_step_24 cap_step_25 cap_step_26 cap_step_27

lemma cap_rest:
  "placeRest (drop 1 capOrder) (capGridAt 1) (capPlacedAt 1) = Inr (capGridAt 28, capPlacedAt 28)"
proof -
  have "drop 1 (x # xs) = xs" for x :: WordEntry and xs by simp
  then show ?thesis
    by (simp add: capOrder_def capWords_def cap_steps length_capPlacedAt del: One_nat_def)
qed

lemma cap_shuffle: "shuffle zeroRng pos capPool = Inr (capOrder, pos + 28)"
  unfolding capPool_def capOrder_def list.map
  by (simp add: shuffle_zeroRng) (simp add: capWords_def)

lemma cap_attempt:
  "runAttempt zeroRng pos capPool = Inr ((capGridAt 28, capPlacedAt 28), pos + 28)"
proof -
  have keep: "filter (\<lambda>w. length (entry_word w) \<le> GRID_SIZE) capOrder = capOrder"
    by (simp add: capOrder_def capWords_def mkEntry_def GRID_SIZE_def)
  have hd: "capOrder = mkEntry ''SNAKE'' # map mkEntry (tl capWords @ [''TEACHER''])"
    by (simp add: capOrder_def capWords_def)
  have first: "placeFirst capOrder = Inr (capGridAt 1, capPlacedAt 1)"
    unfolding hd by (rule trans [OF placeFirst_head cap_seed])
  show ?thesis
    by (simp add: runAttempt_def cap_shuffle keep first cap_rest del: One_nat_def)
qed

lemma cap_seed_wf: "wfGrid (capGridAt 1)"
  by code_simp

lemma cap_second:
  "capPlacedAt 2 = capPlacedAt 1 @ [newPlaced (mkEntry ''HARBOR'') 6 7 Down]"
  by code_simp

text \<open>
  Claim C6 (as stated): every word after the seed is committed exactly when it has a best
  placement with a positive score.  This fails for the words the loop does not reach because
  28 words are placed already.  In the attempt on the pool below, with all draws 0, TEACHER is
  the last word of the shuffled list; when 28 words are placed its best placement is across
  at row 1, column 7, with score 21/4, and the attempt ends without TEACHER.
\<close>

theorem cap_leaves_out_word:
  "shuffle zeroRng 1 capPool = Inr (capOrder, 29)
   \<and> last capOrder = mkEntry ''TEACHER''
   \<and> length capOrder = 29
   \<and> runAttempt zeroRng 1 capPool = Inr ((capGridAt 28, capPlacedAt 28), 29)
   \<and> length (capPlacedAt 28) = 28
   \<and> ''TEACHER'' \<notin> word ` set (capPlacedAt 28)
   \<and> findBestPlacement (capGridAt 28) ''TEACHER'' (capPlacedAt 28) (getOccupied (capPlacedAt 28))
       = Inr (Some \<lparr>p_row = 1, p_col = 7, p_direction = Across, score = 21 / 4\<rparr>)"
proof -
  from cap_shuffle [of 1] have sh: "shuffle zeroRng 1 capPool = Inr (capOrder, 29)" by simp
  have order: "last capOrder = mkEntry ''TEACHER''" "length capOrder = 29"
    by (simp_all add: capOrder_def capWords_def)
  have out: "''TEACHER'' \<notin> word ` set (capPlacedAt 28)"
    by (simp add: capPlacedAt_def capLayout_def)
  from cap_attempt [of 1] have "runAttempt zeroRng 1 capPool = Inr ((capGridAt 28, capPlacedAt 28), 29)"
    by simp
  with sh order out cap_best length_capPlacedAt [of 28] show ?thesis by simp
qed

text \<open>
  Claim C6 (amended): for a word of the loop after the seed, on a grid of 15 rows of 15 cells,
  findBestPlacement returns the first legal placement of maximal score in the order of the
  scan (across before down, then by row, then by column), or nothing if the word has no legal
  placement.  While fewer than 28 words are placed, the word is committed to the grid and
  appended to the placed list exactly when that placement exists and its score is above 0, and
  otherwise the grid and the placed list stay as they are; the loop goes on with the next
  word.  Once 28 words are placed the loop ends with the grid and the list as they are, and
  the words left are not looked at.
\<close>

theorem placeRest_commits_first_best:
  assumes "wfGrid g"
  shows "\<exists>best. findBestPlacement g (entry_word e) placed (getOccupied placed)
                 = Inr (map_option (toPlacement (scoreAt g (entry_word e))) best)
           \<and> bestOf (legalAt g (entry_word e) placed (getOccupied placed)) (scoreAt g (entry_word e)) best
           \<and> (if length placed < 28
              then \<exists>g' placed'. placeEntry e g placed = Inr (g', placed')
                     \<and> wordStep e g placed best g' placed'
                     \<and> placeRest (e # rest) g placed = placeRest rest g' placed'
              else placeRest (e # rest) g placed = Inr (g, placed))"
  using assms by (rule placeRest_first_best)

theorem placeRest_commits_first_best_witness:
  "wfGrid (capGridAt 1) \<and> length (capPlacedAt 1) < 28
   \<and> bestOf (legalAt (capGridAt 1) ''HARBOR'' (capPlacedAt 1) (getOccupied (capPlacedAt 1)))
        (scoreAt (capGridAt 1) ''HARBOR'') (Some (Down, 6, 7))
   \<and> 0 < scoreAt (capGridAt 1) ''HARBOR'' (Down, 6, 7)
   \<and> committed (capGridAt 1) (capGridAt 2) ''HARBOR'' 6 7 Down
   \<and> placeRest [mkEntry ''HARBOR''] (capGridAt 1) (capPlacedAt 1) = Inr (capGridAt 2, capPlacedAt 2)"
proof -
  let ?e = "mkEntry ''HARBOR''"
  have w: "entry_word ?e = ''HARBOR''" by (simp add: mkEntry_def)
  have len: "length (capPlacedAt 1) < 28" by (simp add: length_capPlacedAt)
  from placeRest_commits_first_best [OF cap_seed_wf, of ?e "capPlacedAt 1" "[]"] len
  obtain best g' placed' where
    best: "bestOf (legalAt (capGridAt 1) ''HARBOR'' (capPlacedAt 1) (getOccupied (capPlacedAt 1)))
             (scoreAt (capGridAt 1) ''HARBOR'') best"
    and run: "placeEntry ?e (capGridAt 1) (capPlacedAt 1) = Inr (g', placed')"
    and step: "wordStep ?e (capGridAt 1) (capPlacedAt 1) best g' placed'"
    and rest: "placeRest [?e] (capGridAt 1) (capPlacedAt 1) = placeRest [] g' placed'"
    unfolding w by auto
  from run have g': "g' = capGridAt 2" and placed': "placed' = capPlacedAt 2"
    unfolding cap_step_1 by simp_all
  from step placed' cap_second obtain p where p: "best = Some p"
    and pos: "0 < scoreAt (capGridAt 1) ''HARBOR'' p"
    and com: "committed (capGridAt 1) g' ''HARBOR'' (fst (snd p)) (snd (snd p)) (fst p)"
    and app: "placed' = capPlacedAt 1 @ [newPlaced ?e (fst (snd p)) (snd (snd p)) (fst p)]"
    by (auto simp: wordStep_def w split: option.splits if_splits)
  from app placed' cap_second have "p = (Down, 6, 7)"
    by (cases p) (simp add: newPlaced_def)
  with best p pos com g' rest placed' cap_seed_wf len show ?thesis by simp
qed

end
